theory Spec2Isabelle
  imports Main "HOL-Library.Word"
begin

section \<open>The in-memory poset store (src/poset/inmem_store.go)\<close>

text \<open>
  A shallow embedding of \<^verbatim>\<open>InmemStore\<close>. Every method is a function that takes the
  store and returns its results together with the store it leaves behind. Go's
  \<^verbatim>\<open>int64\<close> is a 64-bit word read as two's complement, a Go map that the code ranges
  over is an association list (its order stands for the iteration order the runtime
  picks), a Go map that is only indexed is a partial function, an \<^verbatim>\<open>error\<close> result is
  an optional \<open>StoreErr\<close>, and \<^verbatim>\<open>os.Exit\<close> is the result \<open>Exit\<close>. The three
  reader-writer locks guard single fields and have no sequential effect; they are left out.
\<close>

subsection \<open>Values\<close>

type_synonym int64 = "64 word"
type_synonym byte = "8 word"

text \<open>
  Modelled from the spec: \<^verbatim>\<open>EventHash\<close> and its method \<^verbatim>\<open>Set\<close> (event_hash.go is not
  part of the sources at hand). The spec describes an identifier that supports equality and
  "a Set(bytes) assignment from raw bytes"; the hash is the byte string, and \<open>Set\<close>
  assigns it.
\<close>

type_synonym EventHash = "byte list"
type_synonym EventHashes = "EventHash list"

definition EventHash_Set :: "byte list \<Rightarrow> EventHash" where
  "EventHash_Set raw = raw"

text \<open>
  Modelled from the spec: the error taxonomy of package \<^verbatim>\<open>common\<close> (kinds KeyNotFound,
  NoRoot, Empty, TooLow, SkippedIndex, "and a predicate to test an error's kind"). The key
  that the Go code formats into the message is kept unformatted.
\<close>

datatype StoreErrType = KeyNotFound | TooLow | SkippedIndex | NoRoot | Empty

datatype StoreKey = KeyHash EventHash | KeyInt int64 | KeyStr string

datatype StoreErr = NewStoreErr string StoreErrType StoreKey

fun Is :: "StoreErr option \<Rightarrow> StoreErrType \<Rightarrow> bool" where
  "Is None t = False"
| "Is (Some (NewStoreErr d t' k)) t = (t' = t)"

text \<open>The outcome of a call that may end the process with \<^verbatim>\<open>os.Exit\<close>.\<close>

datatype 'a proc = Exit int | Return 'a

text \<open>
  Modelled from the spec: the types the store keeps but does not look into. An event
  carries its hash, its creator and its index; a created round carries its clotho hashes
  and the events of the round; a block is indexed by \<open>Block_Index\<close> and a frame by
  \<open>Frame_Round\<close>; a root has a self-parent descriptor with \<open>Hash\<close> (bytes) and \<open>Index\<close>.
\<close>

record Event =
  Event_Hash :: EventHash
  Event_GetCreator :: string
  Event_Index :: int64
  Event_Body :: "byte list"

record RoundCreated =
  RoundCreated_Clotho :: EventHashes
  Message_Events :: EventHashes

record RoundReceived =
  RoundReceived_Rounds :: EventHashes

record Block =
  Block_Index :: int64
  Block_Body :: "byte list"

record Frame =
  Frame_Round :: int64
  Frame_Body :: "byte list"

record RootEvent =
  RootEvent_Hash :: "byte list"
  RootEvent_Index :: int64

record Root =
  SelfParent :: RootEvent

text \<open>
  Modelled from the spec: \<^verbatim>\<open>NewBaseRoot\<close> (root.go is not at hand): "a base root with
  SelfParent.Index = -1 and a canonical zero-or-ID-derived hash". The derivation of the hash
  from the participant id is the parameter \<open>baseHash\<close>.
\<close>

definition NewBaseRoot :: "(int64 \<Rightarrow> byte list) \<Rightarrow> int64 \<Rightarrow> Root" where
  "NewBaseRoot baseHash pid =
     \<lparr>SelfParent = \<lparr>RootEvent_Hash = baseHash pid, RootEvent_Index = - 1\<rparr>\<rparr>"

text \<open>
  Modelled from the spec: the peer set (package \<^verbatim>\<open>peers\<close>), two mirrored mappings by
  public key and by numeric id. Both are ranged over by the store, so both are
  association lists.
\<close>

record Peer =
  ID :: int64
  NetAddr :: string
  PubKeyHex :: string

record Peers =
  ByPubKey :: "(string \<times> Peer) list"
  ByID :: "(int64 \<times> Peer) list"

subsection \<open>The LRU cache\<close>

text \<open>
  Modelled from the spec: the LRU of \<^verbatim>\<open>hashicorp/golang-lru\<close>, "a bounded cache that
  discards the least-recently-used entry on overflow", "insertion is last-writer-wins",
  a miss is reported to the caller. The entries are kept most recently used first;
  \<open>lru_Get\<close> of a present key and \<open>lru_Add\<close> move the entry to the front; \<open>lru_New\<close>
  refuses a size that is not positive.
\<close>

record ('k, 'v) Cache =
  lru_size :: int
  lru_items :: "('k \<times> 'v) list"

definition lru_New :: "int \<Rightarrow> string + ('k, 'v) Cache" where
  "lru_New n =
     (if n \<le> 0 then Inl ''Must provide a positive size''
      else Inr \<lparr>lru_size = n, lru_items = []\<rparr>)"

definition lru_Get :: "'k \<Rightarrow> ('k, 'v) Cache \<Rightarrow> 'v option \<times> ('k, 'v) Cache" where
  "lru_Get k c =
     (case map_of (lru_items c) k of
        None \<Rightarrow> (None, c)
      | Some v \<Rightarrow> (Some v, c\<lparr>lru_items := (k, v) # filter (\<lambda>kv. fst kv \<noteq> k) (lru_items c)\<rparr>))"

definition lru_Add :: "'k \<Rightarrow> 'v \<Rightarrow> ('k, 'v) Cache \<Rightarrow> ('k, 'v) Cache" where
  "lru_Add k v c =
     (case map_of (lru_items c) k of
        Some old \<Rightarrow> c\<lparr>lru_items := (k, v) # filter (\<lambda>kv. fst kv \<noteq> k) (lru_items c)\<rparr>
      | None \<Rightarrow>
          (let items = (k, v) # lru_items c
           in c\<lparr>lru_items := (if lru_size c < int (length items) then butlast items else items)\<rparr>))"

subsection \<open>The rolling consensus index\<close>

text \<open>
  Modelled from the spec: \<^verbatim>\<open>common.RollingIndex\<close> (section 4.4): "a bounded FIFO of items
  addressed by a dense monotonically increasing position, with a total-count kept
  separately from retained size"; "Set(item, position) must be called with position =
  totalCount; advances total count"; "GetLastWindow() is the retained suffix in order".
  A \<open>Set\<close> at another position is refused with a too-low or skipped-index error and
  changes nothing.
\<close>

record 'a RollingIndex =
  ri_name :: string
  ri_size :: int
  ri_items :: "'a list"
  ri_total :: int64

definition NewRollingIndex :: "string \<Rightarrow> int \<Rightarrow> 'a RollingIndex" where
  "NewRollingIndex name n = \<lparr>ri_name = name, ri_size = n, ri_items = [], ri_total = 0\<rparr>"

definition RollingIndex_Set ::
    "'a \<Rightarrow> int64 \<Rightarrow> 'a RollingIndex \<Rightarrow> StoreErr option \<times> 'a RollingIndex" where
  "RollingIndex_Set item position r =
     (if position = ri_total r then
        (let items = ri_items r @ [item]
         in (None, r\<lparr>ri_items := (if ri_size r < int (length items) then tl items else items),
                      ri_total := ri_total r + 1\<rparr>))
      else
        (Some (NewStoreErr (ri_name r)
                 (if sint position < sint (ri_total r) then TooLow else SkippedIndex)
                 (KeyInt position)), r))"

definition RollingIndex_GetLastWindow :: "'a RollingIndex \<Rightarrow> 'a list \<times> int64" where
  "RollingIndex_GetLastWindow r = (ri_items r, ri_total r - 1)"

subsection \<open>The participant-events index\<close>

text \<open>
  Modelled from the spec: \<^verbatim>\<open>ParticipantEventsCache\<close> (section 4.3; its source is not at
  hand). Per participant a window of event hashes, oldest first, and the highest index
  ever assigned (\<open>- 1\<close> when none). \<open>Set\<close> accepts the next expected index only, appends,
  and evicts the oldest entry when the capacity is reached; \<open>Get\<close> returns the entries
  with an index above \<open>skip\<close>, from the low bound of the window when \<open>skip\<close> lies below
  it; \<open>GetItem\<close> is an exact lookup, too-low or not-found outside the window; \<open>GetLast\<close>
  is the highest retained entry, and the Empty error when there is none; \<open>Known\<close> maps
  each participant id to the highest index assigned; \<open>Reset\<close> clears all windows.
\<close>

record PWindow =
  pw_items :: EventHashes
  pw_last :: int64

record ParticipantEventsCache =
  pec_size :: int
  pec_participants :: Peers
  pec_windows :: "string \<Rightarrow> PWindow"

definition pw_empty :: PWindow where
  "pw_empty = \<lparr>pw_items = [], pw_last = - 1\<rparr>"

definition pw_low :: "PWindow \<Rightarrow> int" where
  "pw_low w = sint (pw_last w) - int (length (pw_items w)) + 1"

definition NewParticipantEventsCache :: "int \<Rightarrow> Peers \<Rightarrow> ParticipantEventsCache" where
  "NewParticipantEventsCache n ps =
     \<lparr>pec_size = n, pec_participants = ps, pec_windows = (\<lambda>p. pw_empty)\<rparr>"

definition PEC_Set ::
    "string \<Rightarrow> EventHash \<Rightarrow> int64 \<Rightarrow> ParticipantEventsCache
      \<Rightarrow> StoreErr option \<times> ParticipantEventsCache" where
  "PEC_Set participant hash index pec =
     (let w = pec_windows pec participant in
      if index = pw_last w + 1 then
        (None, pec\<lparr>pec_windows := (pec_windows pec)(participant :=
           \<lparr>pw_items = (if pec_size pec \<le> int (length (pw_items w)) then tl (pw_items w)
                         else pw_items w) @ [hash],
            pw_last = index\<rparr>)\<rparr>)
      else
        (Some (NewStoreErr ''ParticipantEvents''
                 (if sint index < sint (pw_last w + 1) then TooLow else SkippedIndex)
                 (KeyInt index)), pec))"

definition PEC_Get ::
    "string \<Rightarrow> int64 \<Rightarrow> ParticipantEventsCache \<Rightarrow> StoreErr + EventHashes" where
  "PEC_Get participant skip pec =
     (let w = pec_windows pec participant in
      if sint skip < pw_low w then Inr (pw_items w)
      else Inr (drop (nat (sint skip - pw_low w + 1)) (pw_items w)))"

definition PEC_GetItem ::
    "string \<Rightarrow> int64 \<Rightarrow> ParticipantEventsCache \<Rightarrow> StoreErr + EventHash" where
  "PEC_GetItem participant index pec =
     (let w = pec_windows pec participant in
      if sint index < pw_low w then
        Inl (NewStoreErr ''ParticipantEvents'' TooLow (KeyInt index))
      else if sint (pw_last w) < sint index then
        Inl (NewStoreErr ''ParticipantEvents'' KeyNotFound (KeyInt index))
      else Inr (pw_items w ! nat (sint index - pw_low w)))"

definition PEC_GetLast :: "string \<Rightarrow> ParticipantEventsCache \<Rightarrow> StoreErr + EventHash" where
  "PEC_GetLast participant pec =
     (case pw_items (pec_windows pec participant) of
        [] \<Rightarrow> Inl (NewStoreErr ''ParticipantEvents'' Empty (KeyStr []))
      | x # xs \<Rightarrow> Inr (last (x # xs)))"

definition PEC_Known :: "ParticipantEventsCache \<Rightarrow> (int64 \<rightharpoonup> int64)" where
  "PEC_Known pec =
     map_of (map (\<lambda>(pk, peer). (ID peer, pw_last (pec_windows pec pk)))
               (ByPubKey (pec_participants pec)))"

definition PEC_Reset :: "ParticipantEventsCache \<Rightarrow> StoreErr option \<times> ParticipantEventsCache" where
  "PEC_Reset pec = (None, pec\<lparr>pec_windows := (\<lambda>p. pw_empty)\<rparr>)"

text \<open>The index lies in the window that the participant-events index retains for the participant.\<close>

definition PEC_holds :: "string \<Rightarrow> int64 \<Rightarrow> ParticipantEventsCache \<Rightarrow> bool" where
  "PEC_holds participant index pec =
     (let w = pec_windows pec participant
      in pw_low w \<le> sint index \<and> sint index \<le> sint (pw_last w))"

subsection \<open>The store\<close>

record InmemStore =
  cacheSize :: int
  participants :: Peers
  eventCache :: "(EventHash, Event) Cache"
  roundCreatedCache :: "(int64, RoundCreated) Cache"
  roundReceivedCache :: "(int64, RoundReceived) Cache"
  blockCache :: "(int64, Block) Cache"
  frameCache :: "(int64, Frame) Cache"
  consensusCache :: "EventHash RollingIndex"
  totConsensusEvents :: int64
  repertoireByPubKey :: "string \<rightharpoonup> Peer"
  repertoireByID :: "int64 \<rightharpoonup> Peer"
  participantEventsCache :: ParticipantEventsCache
  rootsByParticipant :: "(string \<times> Root) list"
  rootsBySelfParent :: "(EventHash \<rightharpoonup> Root) option"
  lastRound :: int64
  lastConsensusEvents :: "string \<rightharpoonup> EventHash"
  lastBlock :: int64

text \<open>
  \<^verbatim>\<open>setPeers\<close>: the loop over \<^verbatim>\<open>participants.ByID\<close> that fills both repertoires;
  \<open>setPeer\<close> is the body of the loop.
\<close>

definition setPeer :: "Peer \<Rightarrow> InmemStore \<Rightarrow> InmemStore" where
  "setPeer peer s =
     s\<lparr>repertoireByPubKey := (repertoireByPubKey s)(PubKeyHex peer \<mapsto> peer),
       repertoireByID := (repertoireByID s)(ID peer \<mapsto> peer)\<rparr>"

definition setPeers :: "int64 \<Rightarrow> Peers \<Rightarrow> InmemStore \<Rightarrow> InmemStore" where
  "setPeers rnd ps s = fold (\<lambda>(i, peer). setPeer peer) (ByID ps) s"

text \<open>
  \<^verbatim>\<open>NewInmemStore\<close>: a base root per participant, the five LRU caches (the process exits
  with the code of the first one that cannot be made), an empty consensus index and
  participant-events index, \<open>lastRound = - 1\<close> and \<open>lastBlock = - 1\<close>. The fields the
  literal does not name have Go's zero value: \<open>totConsensusEvents = 0\<close> and
  \<open>rootsBySelfParent = None\<close> (nil). The constructor also registers a callback with
  the peer set for peers that join later; the callback is no method of the \<^verbatim>\<open>Store\<close>
  interface and the peer set is kept fixed here.
\<close>

definition NewInmemStore :: "(int64 \<Rightarrow> byte list) \<Rightarrow> Peers \<Rightarrow> int \<Rightarrow> InmemStore proc" where
  "NewInmemStore baseHash ps n =
     (let roots = map (\<lambda>(pk, pid). (pk, NewBaseRoot baseHash (ID pid))) (ByPubKey ps) in
      case lru_New n of Inl e \<Rightarrow> Exit 31 | Inr ec \<Rightarrow>
      (case lru_New n of Inl e \<Rightarrow> Exit 32 | Inr rcc \<Rightarrow>
      (case lru_New n of Inl e \<Rightarrow> Exit 35 | Inr rrc \<Rightarrow>
      (case lru_New n of Inl e \<Rightarrow> Exit 33 | Inr bc \<Rightarrow>
      (case lru_New n of Inl e \<Rightarrow> Exit 34 | Inr fc \<Rightarrow>
         Return (setPeers 0 ps
           \<lparr>cacheSize = n,
            participants = ps,
            eventCache = ec,
            roundCreatedCache = rcc,
            roundReceivedCache = rrc,
            blockCache = bc,
            frameCache = fc,
            consensusCache = NewRollingIndex ''ConsensusCache'' n,
            totConsensusEvents = 0,
            repertoireByPubKey = Map.empty,
            repertoireByID = Map.empty,
            participantEventsCache = NewParticipantEventsCache n ps,
            rootsByParticipant = roots,
            rootsBySelfParent = None,
            lastRound = - 1,
            lastConsensusEvents = Map.empty,
            lastBlock = - 1\<rparr>))))))"

definition CacheSize :: "InmemStore \<Rightarrow> int" where
  "CacheSize s = cacheSize s"

definition Participants :: "InmemStore \<Rightarrow> Peers \<times> StoreErr option" where
  "Participants s = (participants s, None)"

definition RepertoireByPubKey :: "InmemStore \<Rightarrow> (string \<rightharpoonup> Peer)" where
  "RepertoireByPubKey s = repertoireByPubKey s"

definition RepertoireByID :: "InmemStore \<Rightarrow> (int64 \<rightharpoonup> Peer)" where
  "RepertoireByID s = repertoireByID s"

text \<open>
  \<^verbatim>\<open>RootsBySelfParent\<close>: when the reverse index is nil it is rebuilt by ranging over
  \<open>rootsByParticipant\<close>, a later root overwriting an earlier one under the same hash.
  \<open>rootHash\<close> is the key a root is filed under.
\<close>

definition rootHash :: "string \<times> Root \<Rightarrow> EventHash" where
  "rootHash pr = EventHash_Set (RootEvent_Hash (SelfParent (snd pr)))"

definition RootsBySelfParent ::
    "InmemStore \<Rightarrow> ((EventHash \<rightharpoonup> Root) \<times> StoreErr option) \<times> InmemStore" where
  "RootsBySelfParent s =
     (case rootsBySelfParent s of
        Some m \<Rightarrow> ((m, None), s)
      | None \<Rightarrow>
          (let m = fold (\<lambda>(p, root) m. m(EventHash_Set (RootEvent_Hash (SelfParent root)) \<mapsto> root))
                        (rootsByParticipant s) Map.empty
           in ((m, None), s\<lparr>rootsBySelfParent := Some m\<rparr>)))"

definition GetEventBlock :: "EventHash \<Rightarrow> InmemStore \<Rightarrow> (StoreErr + Event) \<times> InmemStore" where
  "GetEventBlock hash s =
     (case lru_Get hash (eventCache s) of
        (None, c) \<Rightarrow> (Inl (NewStoreErr ''EventCache'' KeyNotFound (KeyHash hash)), s\<lparr>eventCache := c\<rparr>)
      | (Some res, c) \<Rightarrow> (Inr res, s\<lparr>eventCache := c\<rparr>))"

definition addParticpantEvent ::
    "string \<Rightarrow> EventHash \<Rightarrow> int64 \<Rightarrow> InmemStore \<Rightarrow> StoreErr option \<times> InmemStore" where
  "addParticpantEvent participant hash index s =
     (case PEC_Set participant hash index (participantEventsCache s) of
        (err, pec) \<Rightarrow> (err, s\<lparr>participantEventsCache := pec\<rparr>))"

text \<open>
  \<^verbatim>\<open>SetEvent\<close>: \<open>GetEventBlock\<close> fails with key-not-found only, so the first test of
  the Go code never fires; the participant-events index is written only on that miss.
\<close>

definition SetEvent :: "Event \<Rightarrow> InmemStore \<Rightarrow> StoreErr option \<times> InmemStore" where
  "SetEvent event s =
     (let eventHash = Event_Hash event;
          (res, s1) = GetEventBlock eventHash s;
          err = (case res of Inl e \<Rightarrow> Some e | Inr ev \<Rightarrow> None)
      in if err \<noteq> None \<and> \<not> Is err KeyNotFound then (err, s1)
         else
           (let (err2, s2) =
                  (if Is err KeyNotFound
                   then addParticpantEvent (Event_GetCreator event) eventHash (Event_Index event) s1
                   else (None, s1))
            in if err2 \<noteq> None then (err2, s2)
               else (None, s2\<lparr>eventCache := lru_Add eventHash event (eventCache s2)\<rparr>)))"

definition ParticipantEvents :: "string \<Rightarrow> int64 \<Rightarrow> InmemStore \<Rightarrow> StoreErr + EventHashes" where
  "ParticipantEvents participant skip s = PEC_Get participant skip (participantEventsCache s)"

definition ParticipantEvent :: "string \<Rightarrow> int64 \<Rightarrow> InmemStore \<Rightarrow> StoreErr + EventHash" where
  "ParticipantEvent participant index s =
     (case PEC_GetItem participant index (participantEventsCache s) of
        Inr hash \<Rightarrow> Inr hash
      | Inl err \<Rightarrow>
          (case map_of (rootsByParticipant s) participant of
             None \<Rightarrow> Inl (NewStoreErr ''InmemStore.Roots'' NoRoot (KeyStr participant))
           | Some root \<Rightarrow>
               if RootEvent_Index (SelfParent root) = index
               then Inr (EventHash_Set (RootEvent_Hash (SelfParent root)))
               else Inl err))"

text \<open>
  \<^verbatim>\<open>LastEventFrom\<close> and \<^verbatim>\<open>LastConsensusEventFrom\<close> return the hash and the \<open>isRoot\<close>
  flag, or the error.
\<close>

definition LastEventFrom :: "string \<Rightarrow> InmemStore \<Rightarrow> StoreErr + (EventHash \<times> bool)" where
  "LastEventFrom participant s =
     (case PEC_GetLast participant (participantEventsCache s) of
        Inr h \<Rightarrow> Inr (h, False)
      | Inl err \<Rightarrow>
          if \<not> Is (Some err) Empty then Inl err
          else (case map_of (rootsByParticipant s) participant of
                  Some root \<Rightarrow> Inr (EventHash_Set (RootEvent_Hash (SelfParent root)), True)
                | None \<Rightarrow> Inl (NewStoreErr ''InmemStore.Roots'' NoRoot (KeyStr participant))))"

definition LastConsensusEventFrom :: "string \<Rightarrow> InmemStore \<Rightarrow> StoreErr + (EventHash \<times> bool)" where
  "LastConsensusEventFrom participant s =
     (case lastConsensusEvents s participant of
        Some h \<Rightarrow> Inr (h, False)
      | None \<Rightarrow>
          (case map_of (rootsByParticipant s) participant of
             Some root \<Rightarrow> Inr (EventHash_Set (RootEvent_Hash (SelfParent root)), True)
           | None \<Rightarrow> Inl (NewStoreErr ''InmemStore.Roots'' NoRoot (KeyStr participant))))"

text \<open>Reading a Go map at a key it does not hold gives the zero value.\<close>

definition index0 :: "(int64 \<rightharpoonup> int64) \<Rightarrow> int64 \<Rightarrow> int64" where
  "index0 m k = (case m k of None \<Rightarrow> 0 | Some v \<Rightarrow> v)"

text \<open>\<open>knownStep\<close> is the body of the loop of \<^verbatim>\<open>KnownEvents\<close> over \<^verbatim>\<open>participants.ByPubKey\<close>.\<close>

definition knownStep ::
    "(string \<times> Root) list \<Rightarrow> string \<times> Peer \<Rightarrow> (int64 \<rightharpoonup> int64) \<Rightarrow> (int64 \<rightharpoonup> int64)" where
  "knownStep roots =
     (\<lambda>(p, pid) known.
        if index0 known (ID pid) = - 1 then
          (case map_of roots p of
             Some root \<Rightarrow> known(ID pid \<mapsto> RootEvent_Index (SelfParent root))
           | None \<Rightarrow> known)
        else known)"

definition KnownEvents :: "InmemStore \<Rightarrow> (int64 \<rightharpoonup> int64)" where
  "KnownEvents s =
     fold (knownStep (rootsByParticipant s)) (ByPubKey (participants s))
          (PEC_Known (participantEventsCache s))"

definition ConsensusEvents :: "InmemStore \<Rightarrow> EventHashes" where
  "ConsensusEvents s = fst (RollingIndex_GetLastWindow (consensusCache s))"

definition ConsensusEventsCount :: "InmemStore \<Rightarrow> int64" where
  "ConsensusEventsCount s = totConsensusEvents s"

text \<open>\<^verbatim>\<open>AddConsensusEvent\<close> drops the result of \<^verbatim>\<open>consensusCache.Set\<close>.\<close>

definition AddConsensusEvent :: "Event \<Rightarrow> InmemStore \<Rightarrow> StoreErr option \<times> InmemStore" where
  "AddConsensusEvent event s =
     (let (ignored, cc) = RollingIndex_Set (Event_Hash event) (totConsensusEvents s) (consensusCache s)
      in (None, s\<lparr>consensusCache := cc,
                  totConsensusEvents := totConsensusEvents s + 1,
                  lastConsensusEvents := (lastConsensusEvents s)(Event_GetCreator event \<mapsto> Event_Hash event)\<rparr>))"

definition GetRoundCreated :: "int64 \<Rightarrow> InmemStore \<Rightarrow> (StoreErr + RoundCreated) \<times> InmemStore" where
  "GetRoundCreated r s =
     (case lru_Get r (roundCreatedCache s) of
        (None, c) \<Rightarrow> (Inl (NewStoreErr ''RoundCreatedCache'' KeyNotFound (KeyInt r)),
                      s\<lparr>roundCreatedCache := c\<rparr>)
      | (Some res, c) \<Rightarrow> (Inr res, s\<lparr>roundCreatedCache := c\<rparr>))"

definition SetRoundCreated :: "int64 \<Rightarrow> RoundCreated \<Rightarrow> InmemStore \<Rightarrow> StoreErr option \<times> InmemStore" where
  "SetRoundCreated r rnd s =
     (let s1 = s\<lparr>roundCreatedCache := lru_Add r rnd (roundCreatedCache s)\<rparr>
      in (None, if sint (lastRound s1) < sint r then s1\<lparr>lastRound := r\<rparr> else s1))"

definition GetRoundReceived :: "int64 \<Rightarrow> InmemStore \<Rightarrow> (StoreErr + RoundReceived) \<times> InmemStore" where
  "GetRoundReceived r s =
     (case lru_Get r (roundReceivedCache s) of
        (None, c) \<Rightarrow> (Inl (NewStoreErr ''RoundReceivedCache'' KeyNotFound (KeyInt r)),
                      s\<lparr>roundReceivedCache := c\<rparr>)
      | (Some res, c) \<Rightarrow> (Inr res, s\<lparr>roundReceivedCache := c\<rparr>))"

definition SetRoundReceived :: "int64 \<Rightarrow> RoundReceived \<Rightarrow> InmemStore \<Rightarrow> StoreErr option \<times> InmemStore" where
  "SetRoundReceived r rnd s =
     (let s1 = s\<lparr>roundReceivedCache := lru_Add r rnd (roundReceivedCache s)\<rparr>
      in (None, if sint (lastRound s1) < sint r then s1\<lparr>lastRound := r\<rparr> else s1))"

definition LastRound :: "InmemStore \<Rightarrow> int64" where
  "LastRound s = lastRound s"

definition RoundClothos :: "int64 \<Rightarrow> InmemStore \<Rightarrow> EventHashes \<times> InmemStore" where
  "RoundClothos r s =
     (case GetRoundCreated r s of
        (Inl err, s1) \<Rightarrow> ([], s1)
      | (Inr rnd, s1) \<Rightarrow> (RoundCreated_Clotho rnd, s1))"

definition RoundEvents :: "int64 \<Rightarrow> InmemStore \<Rightarrow> int \<times> InmemStore" where
  "RoundEvents r s =
     (case GetRoundCreated r s of
        (Inl err, s1) \<Rightarrow> (0, s1)
      | (Inr rnd, s1) \<Rightarrow> (int (length (Message_Events rnd)), s1))"

definition GetRoot :: "string \<Rightarrow> InmemStore \<Rightarrow> StoreErr + Root" where
  "GetRoot participant s =
     (case map_of (rootsByParticipant s) participant of
        None \<Rightarrow> Inl (NewStoreErr ''RootCache'' KeyNotFound (KeyStr participant))
      | Some res \<Rightarrow> Inr res)"

definition GetBlock :: "int64 \<Rightarrow> InmemStore \<Rightarrow> (StoreErr + Block) \<times> InmemStore" where
  "GetBlock index s =
     (case lru_Get index (blockCache s) of
        (None, c) \<Rightarrow> (Inl (NewStoreErr ''BlockCache'' KeyNotFound (KeyInt index)), s\<lparr>blockCache := c\<rparr>)
      | (Some res, c) \<Rightarrow> (Inr res, s\<lparr>blockCache := c\<rparr>))"

definition SetBlock :: "Block \<Rightarrow> InmemStore \<Rightarrow> StoreErr option \<times> InmemStore" where
  "SetBlock block s =
     (let index = Block_Index block;
          (res, s1) = GetBlock index s;
          err = (case res of Inl e \<Rightarrow> Some e | Inr b \<Rightarrow> None)
      in if err \<noteq> None \<and> \<not> Is err KeyNotFound then (err, s1)
         else
           (let s2 = s1\<lparr>blockCache := lru_Add index block (blockCache s1)\<rparr>
            in (None, if sint (lastBlock s2) < sint index then s2\<lparr>lastBlock := index\<rparr> else s2)))"

definition LastBlockIndex :: "InmemStore \<Rightarrow> int64" where
  "LastBlockIndex s = lastBlock s"

definition GetFrame :: "int64 \<Rightarrow> InmemStore \<Rightarrow> (StoreErr + Frame) \<times> InmemStore" where
  "GetFrame index s =
     (case lru_Get index (frameCache s) of
        (None, c) \<Rightarrow> (Inl (NewStoreErr ''FrameCache'' KeyNotFound (KeyInt index)), s\<lparr>frameCache := c\<rparr>)
      | (Some res, c) \<Rightarrow> (Inr res, s\<lparr>frameCache := c\<rparr>))"

definition SetFrame :: "Frame \<Rightarrow> InmemStore \<Rightarrow> StoreErr option \<times> InmemStore" where
  "SetFrame frame s =
     (let index = Frame_Round frame;
          (res, s1) = GetFrame index s;
          err = (case res of Inl e \<Rightarrow> Some e | Inr f \<Rightarrow> None)
      in if err \<noteq> None \<and> \<not> Is err KeyNotFound then (err, s1)
         else (None, s1\<lparr>frameCache := lru_Add index frame (frameCache s1)\<rparr>))"

text \<open>
  \<^verbatim>\<open>Reset\<close>: three fresh LRU caches (exit codes 41, 42, 45), the new roots, a nil
  reverse index, a fresh consensus index, the participant-events index reset,
  \<open>lastRound\<close> and \<open>lastBlock\<close> back at \<open>- 1\<close>, and the reverse index rebuilt. The
  block cache, the frame cache, \<open>lastConsensusEvents\<close> and \<open>totConsensusEvents\<close> are
  not assigned.
\<close>

definition Reset :: "(string \<times> Root) list \<Rightarrow> InmemStore \<Rightarrow> (StoreErr option \<times> InmemStore) proc" where
  "Reset roots s =
     (case lru_New (cacheSize s) of Inl e \<Rightarrow> Exit 41 | Inr ec \<Rightarrow>
     (case lru_New (cacheSize s) of Inl e \<Rightarrow> Exit 42 | Inr roundCache \<Rightarrow>
     (case lru_New (cacheSize s) of Inl e \<Rightarrow> Exit 45 | Inr rrc \<Rightarrow>
        (let s1 = s\<lparr>rootsByParticipant := roots,
                    rootsBySelfParent := None,
                    eventCache := ec,
                    roundCreatedCache := roundCache,
                    roundReceivedCache := rrc,
                    consensusCache := NewRollingIndex ''ConsensusCache'' (cacheSize s)\<rparr>;
             (err, pec) = PEC_Reset (participantEventsCache s1);
             s2 = s1\<lparr>participantEventsCache := pec, lastRound := - 1, lastBlock := - 1\<rparr>;
             ((m, err2), s3) = RootsBySelfParent s2
         in if err2 \<noteq> None then Return (err2, s3) else Return (err, s3)))))"

definition Close :: "InmemStore \<Rightarrow> StoreErr option" where
  "Close s = None"

definition NeedBoostrap :: "InmemStore \<Rightarrow> bool" where
  "NeedBoostrap s = False"

definition StorePath :: "InmemStore \<Rightarrow> string" where
  "StorePath s = []"

subsection \<open>Sequences of operations\<close>

text \<open>
  The methods of the \<^verbatim>\<open>Store\<close> interface (store.go) that can change the store; the
  others only read it. A run of operations ends when \<open>Reset\<close> exits the process.
\<close>

datatype StoreOp =
    OpRootsBySelfParent
  | OpGetEventBlock EventHash
  | OpSetEvent Event
  | OpAddConsensusEvent Event
  | OpGetRoundCreated int64
  | OpSetRoundCreated int64 RoundCreated
  | OpGetRoundReceived int64
  | OpSetRoundReceived int64 RoundReceived
  | OpRoundClothos int64
  | OpRoundEvents int64
  | OpGetBlock int64
  | OpSetBlock Block
  | OpGetFrame int64
  | OpSetFrame Frame
  | OpReset "(string \<times> Root) list"

fun isReset :: "StoreOp \<Rightarrow> bool" where
  "isReset (OpReset roots) = True"
| "isReset other = False"

fun isAddConsensusEvent :: "StoreOp \<Rightarrow> bool" where
  "isAddConsensusEvent (OpAddConsensusEvent e) = True"
| "isAddConsensusEvent other = False"

fun apply_op :: "StoreOp \<Rightarrow> InmemStore \<Rightarrow> InmemStore proc" where
  "apply_op OpRootsBySelfParent s = Return (snd (RootsBySelfParent s))"
| "apply_op (OpGetEventBlock h) s = Return (snd (GetEventBlock h s))"
| "apply_op (OpSetEvent e) s = Return (snd (SetEvent e s))"
| "apply_op (OpAddConsensusEvent e) s = Return (snd (AddConsensusEvent e s))"
| "apply_op (OpGetRoundCreated r) s = Return (snd (GetRoundCreated r s))"
| "apply_op (OpSetRoundCreated r rnd) s = Return (snd (SetRoundCreated r rnd s))"
| "apply_op (OpGetRoundReceived r) s = Return (snd (GetRoundReceived r s))"
| "apply_op (OpSetRoundReceived r rnd) s = Return (snd (SetRoundReceived r rnd s))"
| "apply_op (OpRoundClothos r) s = Return (snd (RoundClothos r s))"
| "apply_op (OpRoundEvents r) s = Return (snd (RoundEvents r s))"
| "apply_op (OpGetBlock i) s = Return (snd (GetBlock i s))"
| "apply_op (OpSetBlock b) s = Return (snd (SetBlock b s))"
| "apply_op (OpGetFrame i) s = Return (snd (GetFrame i s))"
| "apply_op (OpSetFrame f) s = Return (snd (SetFrame f s))"
| "apply_op (OpReset roots) s =
     (case Reset roots s of Exit c \<Rightarrow> Exit c | Return (err, s') \<Rightarrow> Return s')"

fun run :: "StoreOp list \<Rightarrow> InmemStore \<Rightarrow> InmemStore proc" where
  "run [] s = Return s"
| "run (x # ops) s = (case apply_op x s of Exit c \<Rightarrow> Exit c | Return s' \<Rightarrow> run ops s')"

fun setsEventOf :: "string \<Rightarrow> StoreOp \<Rightarrow> bool" where
  "setsEventOf p (OpSetEvent e) = (Event_GetCreator e = p)"
| "setsEventOf p other = False"

text \<open>
  What every store built by \<open>NewInmemStore\<close> satisfies and every operation keeps: the
  event cache has a positive capacity, and the participant-events index shares the peer
  set of the store.
\<close>

definition store_inv :: "InmemStore \<Rightarrow> bool" where
  "store_inv s =
     (0 < lru_size (eventCache s)
      \<and> pec_participants (participantEventsCache s) = participants s)"

text \<open>
  The rolling consensus index stands at the total count of the store and has room for
  an entry: the next position it accepts is \<open>totConsensusEvents\<close>.
\<close>

definition consensus_in_step :: "InmemStore \<Rightarrow> bool" where
  "consensus_in_step s =
     (ri_total (consensusCache s) = totConsensusEvents s \<and> 0 < ri_size (consensusCache s))"

subsection \<open>Example values\<close>

text \<open>
  The store of the spec's scenarios: one participant \<open>P1\<close>, here with a cache size of 2,
  and the values the scenarios insert.
\<close>

definition peer1 :: Peer where
  "peer1 = \<lparr>ID = 1, NetAddr = ''addr1'', PubKeyHex = ''P1''\<rparr>"

definition peers1 :: Peers where
  "peers1 = \<lparr>ByPubKey = [(''P1'', peer1)], ByID = [(1, peer1)]\<rparr>"

definition baseHash1 :: "int64 \<Rightarrow> byte list" where
  "baseHash1 pid = [0, ucast pid]"

definition event1 :: Event where
  "event1 = \<lparr>Event_Hash = [1], Event_GetCreator = ''P1'', Event_Index = 0, Event_Body = []\<rparr>"

definition root1 :: Root where
  "root1 = \<lparr>SelfParent = \<lparr>RootEvent_Hash = [7], RootEvent_Index = 4\<rparr>\<rparr>"

definition root2 :: Root where
  "root2 = \<lparr>SelfParent = \<lparr>RootEvent_Hash = [7], RootEvent_Index = 9\<rparr>\<rparr>"

definition roundCreated1 :: RoundCreated where
  "roundCreated1 = \<lparr>RoundCreated_Clotho = [[1]], Message_Events = [[1], [2]]\<rparr>"

definition roundReceived1 :: RoundReceived where
  "roundReceived1 = \<lparr>RoundReceived_Rounds = [[1]]\<rparr>"

definition block1 :: Block where
  "block1 = \<lparr>Block_Index = 2, Block_Body = [5]\<rparr>"

definition frame1 :: Frame where
  "frame1 = \<lparr>Frame_Round = 3, Frame_Body = [6]\<rparr>"

definition store1 :: InmemStore where
  "store1 =
     \<lparr>cacheSize = 2,
      participants = peers1,
      eventCache = \<lparr>lru_size = 2, lru_items = []\<rparr>,
      roundCreatedCache = \<lparr>lru_size = 2, lru_items = []\<rparr>,
      roundReceivedCache = \<lparr>lru_size = 2, lru_items = []\<rparr>,
      blockCache = \<lparr>lru_size = 2, lru_items = []\<rparr>,
      frameCache = \<lparr>lru_size = 2, lru_items = []\<rparr>,
      consensusCache = \<lparr>ri_name = ''ConsensusCache'', ri_size = 2, ri_items = [], ri_total = 0\<rparr>,
      totConsensusEvents = 0,
      repertoireByPubKey = [''P1'' \<mapsto> peer1],
      repertoireByID = [1 \<mapsto> peer1],
      participantEventsCache =
        \<lparr>pec_size = 2, pec_participants = peers1, pec_windows = (\<lambda>p. pw_empty)\<rparr>,
      rootsByParticipant =
        [(''P1'', \<lparr>SelfParent = \<lparr>RootEvent_Hash = [0, 1], RootEvent_Index = - 1\<rparr>\<rparr>)],
      rootsBySelfParent = None,
      lastRound = - 1,
      lastConsensusEvents = Map.empty,
      lastBlock = - 1\<rparr>"

text \<open>\<open>store1\<close> after one consensus event, and after a block and a frame as well.\<close>

definition store1a :: InmemStore where
  "store1a = snd (AddConsensusEvent event1 store1)"

definition store1b :: InmemStore where
  "store1b = snd (SetFrame frame1 (snd (SetBlock block1 store1a)))"

text \<open>\<open>store1\<close> after \<open>event1\<close> was set once, and twice.\<close>

definition store1e :: InmemStore where
  "store1e = snd (SetEvent event1 store1)"

definition store1ee :: InmemStore where
  "store1ee = snd (SetEvent event1 store1e)"

section \<open>Properties\<close>

subsection \<open>The constructor and the example store\<close>

lemma fold_setPeer_fields:
  "\<exists>X Y. fold (\<lambda>(i, peer). setPeer peer) xs t = t\<lparr>repertoireByPubKey := X, repertoireByID := Y\<rparr>"
proof (induction xs arbitrary: t)
  case Nil
  have "t = t\<lparr>repertoireByPubKey := repertoireByPubKey t, repertoireByID := repertoireByID t\<rparr>"
    by simp
  then show ?case by (metis fold_simps(1))
next
  case (Cons x xs)
  obtain i peer where x: "x = (i, peer)" by (cases x)
  from Cons.IH [of "setPeer peer t"] obtain X Y where
    "fold (\<lambda>(i, peer). setPeer peer) xs (setPeer peer t)
       = (setPeer peer t)\<lparr>repertoireByPubKey := X, repertoireByID := Y\<rparr>" by blast
  then have "fold (\<lambda>(i, peer). setPeer peer) (x # xs) t
       = t\<lparr>repertoireByPubKey := X, repertoireByID := Y\<rparr>"
    by (simp add: x setPeer_def)
  then show ?case by blast
qed

lemma setPeers_fields:
  "\<exists>X Y. setPeers r ps t = t\<lparr>repertoireByPubKey := X, repertoireByID := Y\<rparr>"
  unfolding setPeers_def by (rule fold_setPeer_fields)

text \<open>
  \<open>NewInmemStore\<close> returns exactly when the cache size is positive, and then every
  field but the two repertoires is the one of the literal in the constructor.
\<close>

lemma NewInmemStore_Return:
  assumes "NewInmemStore bh ps n = Return s"
  shows "0 < n \<and> (\<exists>X Y. s =
           \<lparr>cacheSize = n,
            participants = ps,
            eventCache = \<lparr>lru_size = n, lru_items = []\<rparr>,
            roundCreatedCache = \<lparr>lru_size = n, lru_items = []\<rparr>,
            roundReceivedCache = \<lparr>lru_size = n, lru_items = []\<rparr>,
            blockCache = \<lparr>lru_size = n, lru_items = []\<rparr>,
            frameCache = \<lparr>lru_size = n, lru_items = []\<rparr>,
            consensusCache = NewRollingIndex ''ConsensusCache'' n,
            totConsensusEvents = 0,
            repertoireByPubKey = X,
            repertoireByID = Y,
            participantEventsCache = NewParticipantEventsCache n ps,
            rootsByParticipant = map (\<lambda>(pk, pid). (pk, NewBaseRoot bh (ID pid))) (ByPubKey ps),
            rootsBySelfParent = None,
            lastRound = - 1,
            lastConsensusEvents = Map.empty,
            lastBlock = - 1\<rparr>)"
proof (cases "0 < n")
  case True
  let ?t = "\<lparr>cacheSize = n,
            participants = ps,
            eventCache = \<lparr>lru_size = n, lru_items = []\<rparr>,
            roundCreatedCache = \<lparr>lru_size = n, lru_items = []\<rparr>,
            roundReceivedCache = \<lparr>lru_size = n, lru_items = []\<rparr>,
            blockCache = \<lparr>lru_size = n, lru_items = []\<rparr>,
            frameCache = \<lparr>lru_size = n, lru_items = []\<rparr>,
            consensusCache = NewRollingIndex ''ConsensusCache'' n,
            totConsensusEvents = 0,
            repertoireByPubKey = Map.empty,
            repertoireByID = Map.empty,
            participantEventsCache = NewParticipantEventsCache n ps,
            rootsByParticipant = map (\<lambda>(pk, pid). (pk, NewBaseRoot bh (ID pid))) (ByPubKey ps),
            rootsBySelfParent = None,
            lastRound = - 1,
            lastConsensusEvents = Map.empty,
            lastBlock = - 1\<rparr>"
  from True assms have "s = setPeers 0 ps ?t"
    by (simp add: NewInmemStore_def lru_New_def Let_def)
  with setPeers_fields [of 0 ps ?t] True show ?thesis by auto
next
  case False
  with assms show ?thesis by (simp add: NewInmemStore_def lru_New_def Let_def)
qed

lemma NewInmemStore_Exit: "n \<le> 0 \<Longrightarrow> NewInmemStore bh ps n = Exit 31"
  by (simp add: NewInmemStore_def lru_New_def)

lemma store1_fresh: "NewInmemStore baseHash1 peers1 2 = Return store1"
  by (simp add: NewInmemStore_def lru_New_def setPeers_def setPeer_def peers1_def peer1_def
      baseHash1_def NewBaseRoot_def NewRollingIndex_def NewParticipantEventsCache_def store1_def)

lemma LastRound_fresh: "NewInmemStore bh ps n = Return s \<Longrightarrow> LastRound s = - 1"
  by (drule NewInmemStore_Return) (auto simp: LastRound_def)

subsection \<open>Reset\<close>

text \<open>
  \<open>Reset\<close> returns exactly when the cache size is positive (otherwise the process
  exits), it returns no error, and the store it leaves is the old one with nine fields
  assigned.
\<close>

lemma Reset_Return_iff:
  "Reset roots s = Return (err, s') \<longleftrightarrow>
     0 < cacheSize s \<and> err = None \<and>
     s' = s\<lparr>rootsByParticipant := roots,
            rootsBySelfParent :=
              Some (fold (\<lambda>(p, root) m. m(EventHash_Set (RootEvent_Hash (SelfParent root)) \<mapsto> root))
                      roots Map.empty),
            eventCache := \<lparr>lru_size = cacheSize s, lru_items = []\<rparr>,
            roundCreatedCache := \<lparr>lru_size = cacheSize s, lru_items = []\<rparr>,
            roundReceivedCache := \<lparr>lru_size = cacheSize s, lru_items = []\<rparr>,
            consensusCache := NewRollingIndex ''ConsensusCache'' (cacheSize s),
            participantEventsCache := (participantEventsCache s)\<lparr>pec_windows := (\<lambda>p. pw_empty)\<rparr>,
            lastRound := - 1, lastBlock := - 1\<rparr>"
  by (cases "0 < cacheSize s")
     (auto simp: Reset_def lru_New_def RootsBySelfParent_def PEC_Reset_def Let_def)

lemma Reset_Exit_iff: "(\<exists>c. Reset roots s = Exit c) \<longleftrightarrow> cacheSize s \<le> 0"
  by (cases "0 < cacheSize s")
     (auto simp: Reset_def lru_New_def RootsBySelfParent_def PEC_Reset_def Let_def split: prod.splits)

lemma Reset_returns: "0 < cacheSize s \<Longrightarrow> \<exists>s'. Reset roots s = Return (None, s')"
  by (simp add: Reset_Return_iff)

lemma cacheSize_AddConsensusEvent [simp]: "cacheSize (snd (AddConsensusEvent e s)) = cacheSize s"
  by (simp add: AddConsensusEvent_def split_beta)

lemma cacheSize_store1 [simp]: "cacheSize store1 = 2"
  by (simp add: store1_def)

lemma cacheSize_store1a [simp]: "cacheSize store1a = 2"
  by (simp add: store1a_def)

lemma count_store1a: "ConsensusEventsCount store1a = 1"
  by (simp add: store1a_def AddConsensusEvent_def store1_def ConsensusEventsCount_def split_beta)

text \<open>
  C1. The claim reads: for every store and every root map, after \<open>Reset\<close> returns,
  \<open>ConsensusEventsCount\<close> is 0. \<open>Reset\<close> replaces the rolling consensus index but never
  assigns \<open>totConsensusEvents\<close>, and nothing else in the store ever lowers it. What holds:
  after \<open>Reset\<close> returns, \<open>ConsensusEventsCount\<close> is what it was before the call, while the
  window \<open>ConsensusEvents\<close> is empty.
\<close>

theorem Reset_keeps_ConsensusEventsCount:
  assumes "Reset newRoots s = Return (err, s')"
  shows "ConsensusEventsCount s' = ConsensusEventsCount s \<and> ConsensusEvents s' = []"
  using assms
  by (auto simp: Reset_Return_iff ConsensusEventsCount_def ConsensusEvents_def
      RollingIndex_GetLastWindow_def NewRollingIndex_def)

theorem Reset_keeps_ConsensusEventsCount_witness:
  "case Reset [] store1a of
     Return r \<Rightarrow> ConsensusEventsCount (snd r) = 1 \<and> ConsensusEvents (snd r) = []
   | Exit c \<Rightarrow> False"
proof -
  obtain s' where r: "Reset [] store1a = Return (None, s')"
    using Reset_returns [of store1a "[]"] by auto
  from Reset_keeps_ConsensusEventsCount [OF r] r count_store1a show ?thesis by simp
qed

text \<open>
  The store of one participant after one consensus event: \<open>Reset\<close> with the empty root
  map returns, and the count is still 1.
\<close>

theorem Reset_ConsensusEventsCount_counterexample:
  "map_proc (ConsensusEventsCount \<circ> snd) (Reset [] (snd (AddConsensusEvent event1 store1)))
     = Return 1"
  by (simp add: Reset_def lru_New_def RootsBySelfParent_def PEC_Reset_def Let_def
      AddConsensusEvent_def RollingIndex_Set_def store1_def ConsensusEventsCount_def split_beta)

subsection \<open>The reverse root index after Reset\<close>

lemma fold_roots_other:
  "k \<notin> rootHash ` set roots \<Longrightarrow>
   fold (\<lambda>(p, root) m. m(EventHash_Set (RootEvent_Hash (SelfParent root)) \<mapsto> root)) roots m k = m k"
  by (induction roots arbitrary: m) (auto simp: rootHash_def)

lemma dom_fold_roots:
  "dom (fold (\<lambda>(p, root) m. m(EventHash_Set (RootEvent_Hash (SelfParent root)) \<mapsto> root)) roots m)
     = dom m \<union> rootHash ` set roots"
  by (induction roots arbitrary: m) (auto simp: rootHash_def)

lemma fold_roots_distinct:
  "distinct (map rootHash roots) \<Longrightarrow> (p, r) \<in> set roots \<Longrightarrow>
   fold (\<lambda>(p, root) m. m(EventHash_Set (RootEvent_Hash (SelfParent root)) \<mapsto> root)) roots m
     (rootHash (p, r)) = Some r"
proof (induction roots arbitrary: m)
  case Nil
  then show ?case by simp
next
  case (Cons x xs)
  show ?case
  proof (cases "(p, r) = x")
    case True
    with Cons.prems have "rootHash (p, r) \<notin> rootHash ` set xs" by auto
    from fold_roots_other [OF this]
    have "fold (\<lambda>(p, root) m. m(EventHash_Set (RootEvent_Hash (SelfParent root)) \<mapsto> root)) xs
            (m(rootHash (p, r) \<mapsto> r)) (rootHash (p, r)) = (m(rootHash (p, r) \<mapsto> r)) (rootHash (p, r))" .
    also have "\<dots> = Some r" by simp
    finally show ?thesis
      unfolding True [symmetric] by (simp only: fold_Cons comp_apply prod.case rootHash_def snd_conv)
  next
    case False
    with Cons.prems have "(p, r) \<in> set xs" "distinct (map rootHash xs)" by auto
    from Cons.IH [OF this(2) this(1)] show ?thesis by simp
  qed
qed

lemma card_rootHash: "distinct (map rootHash roots) \<Longrightarrow> card (rootHash ` set roots) = length roots"
  using distinct_card [of "map rootHash roots"] by simp

text \<open>
  C2. The claim reads: for every store and every root map \<open>roots\<close>, after \<open>Reset roots\<close>
  returns, \<open>LastRound\<close> and \<open>LastBlockIndex\<close> are \<open>- 1\<close>, \<open>ConsensusEvents\<close> is empty, and
  \<open>RootsBySelfParent\<close> has exactly one entry per participant of \<open>roots\<close>, keyed by the
  self-parent hash of that participant's root. The reverse index is keyed by hash, so
  two participants whose roots have the same self-parent hash share one entry. What
  holds: the first three parts as written; the keys of \<open>RootsBySelfParent\<close> are exactly
  the self-parent hashes of the roots, and there is no error; and when these hashes are
  pairwise distinct, there are as many entries as participants and each hash maps to
  the root of its participant.
\<close>

theorem Reset_postconditions:
  assumes "Reset roots s = Return (err, s')"
  shows "LastRound s' = - 1 \<and> LastBlockIndex s' = - 1 \<and> ConsensusEvents s' = []
     \<and> snd (RootsBySelfParent s') = s' \<and> snd (fst (RootsBySelfParent s')) = None
     \<and> dom (fst (fst (RootsBySelfParent s'))) = rootHash ` set roots
     \<and> (distinct (map rootHash roots) \<longrightarrow>
          card (dom (fst (fst (RootsBySelfParent s')))) = length roots
          \<and> (\<forall>pr \<in> set roots. fst (fst (RootsBySelfParent s')) (rootHash pr) = Some (snd pr)))"
proof -
  let ?m = "fold (\<lambda>(p, root) m. m(EventHash_Set (RootEvent_Hash (SelfParent root)) \<mapsto> root))
              roots Map.empty"
  from assms have rb: "rootsBySelfParent s' = Some ?m"
    and lr: "lastRound s' = - 1" and lb: "lastBlock s' = - 1"
    and cc: "consensusCache s' = NewRollingIndex ''ConsensusCache'' (cacheSize s)"
    by (simp_all add: Reset_Return_iff)
  from rb have R: "RootsBySelfParent s' = ((?m, None), s')"
    by (simp add: RootsBySelfParent_def)
  have d: "dom ?m = rootHash ` set roots"
    by (simp add: dom_fold_roots)
  have "distinct (map rootHash roots) \<longrightarrow> card (dom ?m) = length roots
          \<and> (\<forall>pr \<in> set roots. ?m (rootHash pr) = Some (snd pr))"
    using fold_roots_distinct [of roots _ _ Map.empty] by (auto simp: d card_rootHash)
  with R d lr lb cc show ?thesis
    by (simp add: LastRound_def LastBlockIndex_def ConsensusEvents_def
        RollingIndex_GetLastWindow_def NewRollingIndex_def)
qed

theorem Reset_postconditions_witness:
  "case Reset [(''P1'', root1)] store1 of
     Return r \<Rightarrow> LastRound (snd r) = - 1 \<and> LastBlockIndex (snd r) = - 1
        \<and> ConsensusEvents (snd r) = []
        \<and> card (dom (fst (fst (RootsBySelfParent (snd r))))) = 1
        \<and> fst (fst (RootsBySelfParent (snd r))) [7] = Some root1
   | Exit c \<Rightarrow> False"
proof -
  obtain s' where r: "Reset [(''P1'', root1)] store1 = Return (None, s')"
    using Reset_returns [of store1] by auto
  have d: "distinct (map rootHash [(''P1'', root1)])" by simp
  have h: "rootHash (''P1'', root1) = [7]" by (simp add: rootHash_def root1_def EventHash_Set_def)
  from Reset_postconditions [OF r] d h r show ?thesis by simp
qed

text \<open>
  Two participants whose roots have the self-parent hash \<open>[7]\<close> (and the indices 4 and
  9): after \<open>Reset\<close> the reverse index has one entry for the two of them.
\<close>

theorem Reset_RootsBySelfParent_counterexample:
  "map_proc (card \<circ> dom \<circ> fst \<circ> fst \<circ> RootsBySelfParent \<circ> snd)
     (Reset [(''P1'', root1), (''P2'', root2)] store1) = Return 1"
  by (simp add: Reset_def lru_New_def RootsBySelfParent_def PEC_Reset_def Let_def
      store1_def root1_def root2_def EventHash_Set_def split_beta)

subsection \<open>What Reset leaves alone\<close>

lemma store1b_fields:
  "cacheSize store1b = 2
   \<and> map_of (lru_items (blockCache store1b)) 2 = Some block1
   \<and> map_of (lru_items (frameCache store1b)) 3 = Some frame1
   \<and> lastConsensusEvents store1b ''P1'' = Some [1]
   \<and> lastBlock store1b = 2"
  by (simp add: store1b_def store1a_def store1_def SetFrame_def SetBlock_def GetFrame_def
      GetBlock_def AddConsensusEvent_def RollingIndex_Set_def lru_Get_def lru_Add_def
      block1_def frame1_def event1_def Let_def split_beta)

text \<open>
  C10. \<open>Reset\<close> leaves the block cache, the frame cache and the last-consensus-events map
  as they were: \<open>GetBlock\<close> and \<open>GetFrame\<close> answer after \<open>Reset\<close> what they answered
  before (although \<open>LastBlockIndex\<close> is \<open>- 1\<close>), and a participant with a consensus event
  recorded before \<open>Reset\<close> still gets that hash from \<open>LastConsensusEventFrom\<close>, with
  \<open>isRoot = False\<close>, whatever the new roots are.
\<close>

theorem Reset_frame:
  assumes "Reset roots s = Return (err, s')"
  shows "blockCache s' = blockCache s \<and> frameCache s' = frameCache s
     \<and> lastConsensusEvents s' = lastConsensusEvents s
     \<and> LastBlockIndex s' = - 1
     \<and> (\<forall>i. fst (GetBlock i s') = fst (GetBlock i s))
     \<and> (\<forall>i. fst (GetFrame i s') = fst (GetFrame i s))
     \<and> (\<forall>p h. lastConsensusEvents s p = Some h \<longrightarrow> LastConsensusEventFrom p s' = Inr (h, False))"
  using assms
  by (auto simp: Reset_Return_iff LastBlockIndex_def GetBlock_def GetFrame_def
      LastConsensusEventFrom_def split: prod.splits option.splits)

theorem Reset_frame_witness:
  "case Reset [] store1b of
     Return r \<Rightarrow> fst (GetBlock 2 (snd r)) = Inr block1 \<and> fst (GetFrame 3 (snd r)) = Inr frame1
        \<and> LastBlockIndex (snd r) = - 1 \<and> LastBlockIndex store1b = 2
        \<and> LastConsensusEventFrom ''P1'' (snd r) = Inr ([1], False)
   | Exit c \<Rightarrow> False"
proof -
  obtain s' where r: "Reset [] store1b = Return (None, s')"
    using Reset_returns [of store1b "[]"] by (auto simp: store1b_fields)
  have b: "fst (GetBlock 2 store1b) = Inr block1"
    by (simp add: GetBlock_def lru_Get_def store1b_fields)
  have f: "fst (GetFrame 3 store1b) = Inr frame1"
    by (simp add: GetFrame_def lru_Get_def store1b_fields)
  have l: "lastConsensusEvents store1b ''P1'' = Some [1]" "LastBlockIndex store1b = 2"
    by (simp_all add: store1b_fields LastBlockIndex_def)
  from Reset_frame [OF r] r b f l show ?thesis by simp
qed

subsection \<open>The consensus count along a run\<close>

lemma tot_RootsBySelfParent: "totConsensusEvents (snd (RootsBySelfParent s)) = totConsensusEvents s"
  by (simp add: RootsBySelfParent_def Let_def split: option.splits)

lemma tot_GetEventBlock: "totConsensusEvents (snd (GetEventBlock h s)) = totConsensusEvents s"
  by (simp add: GetEventBlock_def split: prod.splits option.splits)

lemma tot_SetEvent: "totConsensusEvents (snd (SetEvent e s)) = totConsensusEvents s"
  by (auto simp: SetEvent_def GetEventBlock_def addParticpantEvent_def Let_def
      split: prod.splits option.splits sum.splits if_splits)

lemma tot_AddConsensusEvent:
  "totConsensusEvents (snd (AddConsensusEvent e s)) = totConsensusEvents s + 1"
  by (simp add: AddConsensusEvent_def split: prod.splits)

lemma tot_GetRoundCreated: "totConsensusEvents (snd (GetRoundCreated r s)) = totConsensusEvents s"
  by (simp add: GetRoundCreated_def split: prod.splits option.splits)

lemma tot_SetRoundCreated: "totConsensusEvents (snd (SetRoundCreated r rnd s)) = totConsensusEvents s"
  by (simp add: SetRoundCreated_def Let_def)

lemma tot_GetRoundReceived: "totConsensusEvents (snd (GetRoundReceived r s)) = totConsensusEvents s"
  by (simp add: GetRoundReceived_def split: prod.splits option.splits)

lemma tot_SetRoundReceived: "totConsensusEvents (snd (SetRoundReceived r rnd s)) = totConsensusEvents s"
  by (simp add: SetRoundReceived_def Let_def)

lemma tot_RoundClothos: "totConsensusEvents (snd (RoundClothos r s)) = totConsensusEvents s"
  by (simp add: RoundClothos_def GetRoundCreated_def split: prod.splits option.splits sum.splits)

lemma tot_RoundEvents: "totConsensusEvents (snd (RoundEvents r s)) = totConsensusEvents s"
  by (simp add: RoundEvents_def GetRoundCreated_def split: prod.splits option.splits sum.splits)

lemma tot_GetBlock: "totConsensusEvents (snd (GetBlock i s)) = totConsensusEvents s"
  by (simp add: GetBlock_def split: prod.splits option.splits)

lemma tot_SetBlock: "totConsensusEvents (snd (SetBlock b s)) = totConsensusEvents s"
  by (auto simp: SetBlock_def GetBlock_def Let_def split: prod.splits option.splits sum.splits)

lemma tot_GetFrame: "totConsensusEvents (snd (GetFrame i s)) = totConsensusEvents s"
  by (simp add: GetFrame_def split: prod.splits option.splits)

lemma tot_SetFrame: "totConsensusEvents (snd (SetFrame f s)) = totConsensusEvents s"
  by (auto simp: SetFrame_def GetFrame_def Let_def split: prod.splits option.splits sum.splits)

lemmas tot_simps = tot_RootsBySelfParent tot_GetEventBlock tot_SetEvent tot_AddConsensusEvent
  tot_GetRoundCreated tot_SetRoundCreated tot_GetRoundReceived tot_SetRoundReceived
  tot_RoundClothos tot_RoundEvents tot_GetBlock tot_SetBlock tot_GetFrame tot_SetFrame

text \<open>One operation other than \<open>Reset\<close> returns; \<open>AddConsensusEvent\<close> adds one to the
  counter (in 64-bit arithmetic) and no other operation changes it.\<close>

lemma apply_op_tot:
  "\<not> isReset x \<Longrightarrow>
   \<exists>s'. apply_op x s = Return s' \<and>
        totConsensusEvents s' = totConsensusEvents s + (if isAddConsensusEvent x then 1 else 0)"
  by (cases x) (simp_all add: tot_simps)

lemma run_tot:
  "\<forall>x \<in> set ops. \<not> isReset x \<Longrightarrow>
   \<exists>s'. run ops s = Return s' \<and>
        totConsensusEvents s' = totConsensusEvents s + of_nat (length (filter isAddConsensusEvent ops))"
proof (induction ops arbitrary: s)
  case Nil
  then show ?case by simp
next
  case (Cons x ops)
  from Cons.prems have nx: "\<not> isReset x" and rest: "\<forall>y \<in> set ops. \<not> isReset y" by auto
  from apply_op_tot [OF nx, of s] obtain s1 where
    a: "apply_op x s = Return s1"
    and t1: "totConsensusEvents s1 = totConsensusEvents s + (if isAddConsensusEvent x then 1 else 0)"
    by blast
  from Cons.IH [OF rest, of s1] obtain s' where
    r: "run ops s1 = Return s'"
    and t2: "totConsensusEvents s' = totConsensusEvents s1 + of_nat (length (filter isAddConsensusEvent ops))"
    by blast
  from a r t1 t2 show ?case by simp
qed

text \<open>Adding \<open>n\<close> to a 64-bit counter adds \<open>n\<close> to its signed value as long as the sum
  stays below \<open>2 ^ 63\<close>.\<close>

lemma sint_add_of_nat:
  fixes c :: int64
  assumes "sint c + int n < 2 ^ 63"
  shows "sint (c + of_nat n) = sint c + int n"
proof -
  have lo: "- (2 ^ 63) \<le> sint c" using sint_ge [of c] by simp
  have hi: "sint c < 2 ^ 63" using sint_lt [of c] by simp
  have "sint (c + of_nat n) = signed_take_bit 63 (sint c + signed_take_bit 63 (int n))"
    by (simp add: sint_word_ariths signed_of_nat)
  also have "\<dots> = signed_take_bit 63 (signed_take_bit 63 (sint c) + signed_take_bit 63 (int n))"
    using lo hi by (simp add: signed_take_bit_int_eq_self)
  also have "\<dots> = signed_take_bit 63 (sint c + int n)"
    by (rule signed_take_bit_add)
  also have "\<dots> = sint c + int n"
    using lo assms by (simp add: signed_take_bit_int_eq_self_iff)
  finally show ?thesis .
qed

text \<open>
  C3. The claim reads: along every sequence of operations without \<open>Reset\<close>, a later
  observation of \<open>ConsensusEventsCount\<close> is at least an earlier one, and the only
  operation that increases it is \<open>AddConsensusEvent\<close>, by exactly 1. The counter is an
  \<^verbatim>\<open>int64\<close> that \<open>AddConsensusEvent\<close> increments with \<^verbatim>\<open>++\<close>, with no guard: at
  \<open>2 ^ 63 - 1\<close> it wraps to \<open>- (2 ^ 63)\<close>. What holds: a sequence without \<open>Reset\<close>
  returns, the count afterwards is the count before plus the number of
  \<open>AddConsensusEvent\<close> calls in 64-bit arithmetic (so no other operation changes it), and
  as long as that sum stays below \<open>2 ^ 63\<close> the later observation is the earlier one plus
  the number of \<open>AddConsensusEvent\<close> calls, hence not smaller.
\<close>

theorem ConsensusEventsCount_monotone:
  assumes noReset: "\<forall>x \<in> set ops. \<not> isReset x"
  shows "\<exists>s'. run ops s = Return s'
     \<and> ConsensusEventsCount s' =
         ConsensusEventsCount s + of_nat (length (filter isAddConsensusEvent ops))
     \<and> (sint (ConsensusEventsCount s) + int (length (filter isAddConsensusEvent ops)) < 2 ^ 63 \<longrightarrow>
          sint (ConsensusEventsCount s') =
            sint (ConsensusEventsCount s) + int (length (filter isAddConsensusEvent ops))
          \<and> sint (ConsensusEventsCount s) \<le> sint (ConsensusEventsCount s'))"
proof -
  from run_tot [OF noReset, of s] obtain s' where
    r: "run ops s = Return s'"
    and t: "totConsensusEvents s' =
              totConsensusEvents s + of_nat (length (filter isAddConsensusEvent ops))"
    by blast
  have "sint (totConsensusEvents s) + int (length (filter isAddConsensusEvent ops)) < 2 ^ 63 \<longrightarrow>
        sint (totConsensusEvents s') =
          sint (totConsensusEvents s) + int (length (filter isAddConsensusEvent ops))"
    using sint_add_of_nat [of "totConsensusEvents s" "length (filter isAddConsensusEvent ops)"] t
    by simp
  with r t show ?thesis
    by (auto simp: ConsensusEventsCount_def)
qed

theorem ConsensusEventsCount_monotone_witness:
  "map_proc (\<lambda>s'. sint (ConsensusEventsCount s'))
      (run [OpSetEvent event1, OpAddConsensusEvent event1, OpGetBlock 0, OpAddConsensusEvent event1]
           store1) = Return 2
   \<and> sint (ConsensusEventsCount store1) = 0"
proof -
  let ?ops = "[OpSetEvent event1, OpAddConsensusEvent event1, OpGetBlock 0, OpAddConsensusEvent event1]"
  have n: "\<forall>x \<in> set ?ops. \<not> isReset x" by simp
  have c: "ConsensusEventsCount store1 = 0" by (simp add: ConsensusEventsCount_def store1_def)
  from ConsensusEventsCount_monotone [OF n, of store1] c show ?thesis by auto
qed

text \<open>
  From the fresh store of one participant, \<open>2 ^ 63 - 1\<close> calls of \<open>AddConsensusEvent\<close>
  bring the count to \<open>2 ^ 63 - 1\<close>, and one more call brings it to \<open>- (2 ^ 63)\<close>.
\<close>

theorem ConsensusEventsCount_overflow_counterexample:
  "map_proc (sint \<circ> ConsensusEventsCount)
      (run (replicate (2 ^ 63 - 1) (OpAddConsensusEvent event1)) store1) = Return (2 ^ 63 - 1)
   \<and> map_proc (sint \<circ> ConsensusEventsCount)
      (run (replicate (2 ^ 63) (OpAddConsensusEvent event1)) store1) = Return (- (2 ^ 63))"
proof -
  have t0: "totConsensusEvents store1 = 0" by (simp add: store1_def)
  have n: "\<And>n. \<forall>x \<in> set (replicate n (OpAddConsensusEvent event1)). \<not> isReset x" by simp
  have f: "\<And>n. length (filter isAddConsensusEvent (replicate n (OpAddConsensusEvent event1))) = n"
    by simp
  from run_tot [OF n, of "2 ^ 63 - 1" store1] obtain s1 where
    r1: "run (replicate (2 ^ 63 - 1) (OpAddConsensusEvent event1)) store1 = Return s1"
    and c1: "totConsensusEvents s1 = of_nat (2 ^ 63 - 1)"
    unfolding f t0 by auto
  from run_tot [OF n, of "2 ^ 63" store1] obtain s2 where
    r2: "run (replicate (2 ^ 63) (OpAddConsensusEvent event1)) store1 = Return s2"
    and c2: "totConsensusEvents s2 = of_nat (2 ^ 63)"
    unfolding f t0 by auto
  have "sint (of_nat (2 ^ 63 - 1) :: int64) = 2 ^ 63 - 1"
    by (simp add: signed_of_nat)
  moreover have "sint (of_nat (2 ^ 63) :: int64) = - (2 ^ 63)"
    by (simp add: signed_of_nat)
  ultimately show ?thesis
    using r1 r2 c1 c2 by (simp add: ConsensusEventsCount_def)
qed

subsection \<open>AddConsensusEvent\<close>

text \<open>
  The index and the store are in step on every store that \<open>NewInmemStore\<close> returns, and
  every operation other than \<open>Reset\<close> keeps them in step. \<open>Reset\<close> makes a new index and
  keeps the count: afterwards they are in step exactly when the count was 0.
\<close>

lemma apply_op_in_step:
  assumes "apply_op x s = Return s'" and "\<not> isReset x" and "consensus_in_step s"
  shows "consensus_in_step s'"
proof (cases x)
  case (OpSetEvent e)
  have "consensusCache (snd (SetEvent e s)) = consensusCache s
        \<and> totConsensusEvents (snd (SetEvent e s)) = totConsensusEvents s"
    by (auto simp: SetEvent_def GetEventBlock_def addParticpantEvent_def Let_def
        split: prod.splits option.splits sum.splits if_splits)
  with assms OpSetEvent show ?thesis by (auto simp: consensus_in_step_def)
next
  case (OpAddConsensusEvent e)
  with assms show ?thesis
    by (auto simp: consensus_in_step_def AddConsensusEvent_def RollingIndex_Set_def Let_def split_beta)
next
  case (OpReset roots)
  with assms show ?thesis by simp
qed (use assms in \<open>auto simp: consensus_in_step_def RootsBySelfParent_def GetEventBlock_def
      GetRoundCreated_def SetRoundCreated_def GetRoundReceived_def
      SetRoundReceived_def RoundClothos_def RoundEvents_def GetBlock_def SetBlock_def
      GetFrame_def SetFrame_def Let_def lru_Get_def
      split: option.splits prod.splits sum.splits if_splits\<close>)

lemma run_in_step:
  "run ops s = Return s' \<Longrightarrow> \<forall>x \<in> set ops. \<not> isReset x \<Longrightarrow>
   consensus_in_step s \<Longrightarrow> consensus_in_step s'"
proof (induction ops arbitrary: s)
  case Nil
  then show ?case by simp
next
  case (Cons x ops)
  from Cons.prems(1) obtain s1 where a: "apply_op x s = Return s1" and r: "run ops s1 = Return s'"
    by (auto split: proc.splits)
  from Cons.prems(2) have nx: "\<not> isReset x" and rest: "\<forall>y \<in> set ops. \<not> isReset y" by auto
  from apply_op_in_step [OF a nx Cons.prems(3)] Cons.IH [OF r rest] show ?case by simp
qed

lemma fresh_in_step: "NewInmemStore bh ps n = Return s \<Longrightarrow> consensus_in_step s"
  by (drule NewInmemStore_Return) (auto simp: consensus_in_step_def NewRollingIndex_def)

lemma reachable_in_step:
  assumes "NewInmemStore bh ps n = Return s0" and "run ops s0 = Return s"
    and "\<forall>x \<in> set ops. \<not> isReset x"
  shows "consensus_in_step s"
  using run_in_step [OF assms(2) assms(3) fresh_in_step [OF assms(1)]] .

lemma Reset_in_step:
  "Reset roots s = Return (err, s') \<Longrightarrow>
   consensus_in_step s' \<longleftrightarrow> totConsensusEvents s = 0"
  by (auto simp: Reset_Return_iff consensus_in_step_def NewRollingIndex_def)





subsection \<open>The last round\<close>

lemma LastRound_SetRoundCreated:
  "LastRound (snd (SetRoundCreated r rnd s)) = (if sint (LastRound s) < sint r then r else LastRound s)"
  by (simp add: SetRoundCreated_def LastRound_def Let_def)

lemma LastRound_SetRoundReceived:
  "LastRound (snd (SetRoundReceived r rnd s)) = (if sint (LastRound s) < sint r then r else LastRound s)"
  by (simp add: SetRoundReceived_def LastRound_def Let_def)

text \<open>
  C8. The claim reads: \<open>SetRoundCreated r\<close> and \<open>SetRoundReceived r'\<close> each set
  \<open>lastRound\<close> to the maximum of its value and the round given; in particular after
  \<open>SetRoundCreated r\<close> followed by \<open>SetRoundReceived r'\<close> with \<open>r' < r\<close>, \<open>LastRound\<close>
  returns \<open>r\<close>; and on a fresh store \<open>LastRound\<close> returns \<open>- 1\<close>. The first and the last
  part hold as written. After the two calls \<open>LastRound\<close> is the maximum of the earlier
  last round and \<open>r\<close>: it is \<open>r\<close> when the earlier last round is at most \<open>r\<close> (as on a
  fresh store, for \<open>r \<ge> - 1\<close>), and stays above \<open>r\<close> otherwise.
\<close>

theorem SetRound_lastRound_max:
  "fst (SetRoundCreated r rc s) = None
   \<and> sint (LastRound (snd (SetRoundCreated r rc s))) = max (sint (LastRound s)) (sint r)
   \<and> fst (SetRoundReceived r' rr s) = None
   \<and> sint (LastRound (snd (SetRoundReceived r' rr s))) = max (sint (LastRound s)) (sint r')
   \<and> (sint r' < sint r \<longrightarrow>
        sint (LastRound (snd (SetRoundReceived r' rr (snd (SetRoundCreated r rc s)))))
          = max (sint (LastRound s)) (sint r))
   \<and> (sint r' < sint r \<and> sint (LastRound s) \<le> sint r \<longrightarrow>
        LastRound (snd (SetRoundReceived r' rr (snd (SetRoundCreated r rc s)))) = r)
   \<and> (NewInmemStore bh ps n = Return s \<longrightarrow> LastRound s = - 1)"
proof -
  have a: "fst (SetRoundCreated r rc s) = None" "fst (SetRoundReceived r' rr s) = None"
    by (simp_all add: SetRoundCreated_def SetRoundReceived_def Let_def)
  have b: "NewInmemStore bh ps n = Return s \<longrightarrow> LastRound s = - 1"
    using LastRound_fresh by blast
  have c: "sint (LastRound s) \<le> sint r \<Longrightarrow> \<not> sint (LastRound s) < sint r \<Longrightarrow> LastRound s = r"
    by (simp add: word_eq_iff_signed [where ?'a = int])
  from a b c show ?thesis
    by (auto simp: LastRound_SetRoundCreated LastRound_SetRoundReceived)
qed

theorem SetRound_lastRound_max_witness:
  "LastRound (snd (SetRoundReceived 3 roundReceived1 (snd (SetRoundCreated 5 roundCreated1 store1)))) = 5
   \<and> LastRound store1 = - 1"
proof -
  have f: "NewInmemStore baseHash1 peers1 2 = Return store1" by (rule store1_fresh)
  have l: "LastRound store1 = - 1" by (simp add: LastRound_def store1_def)
  have h: "sint (3 :: int64) < sint (5 :: int64) \<and> sint (LastRound store1) \<le> sint (5 :: int64)"
    by (simp add: l)
  from SetRound_lastRound_max [of 5 roundCreated1 store1 3 roundReceived1 baseHash1 peers1 2] h f
  show ?thesis by simp
qed

text \<open>
  On the fresh store, after round 7 was created: \<open>SetRoundCreated 5\<close> followed by
  \<open>SetRoundReceived 3\<close> leaves \<open>LastRound\<close> at 7, not at 5.
\<close>

theorem LastRound_counterexample:
  "LastRound (snd (SetRoundReceived 3 roundReceived1
      (snd (SetRoundCreated 5 roundCreated1 (snd (SetRoundCreated 7 roundCreated1 store1)))))) = 7"
  by (simp add: LastRound_SetRoundCreated LastRound_SetRoundReceived)
     (simp add: LastRound_def store1_def)

subsection \<open>Probing a round\<close>

text \<open>
  C9. For a round number with no created round in the cache, \<open>RoundClothos\<close> returns the
  empty list and \<open>RoundEvents\<close> returns 0, both leaving the store as it was; neither has
  an error among its results, although the lookup \<open>GetRoundCreated\<close> they make fails
  with key-not-found.
\<close>

theorem RoundClothos_RoundEvents_not_found:
  assumes "r \<notin> fst ` set (lru_items (roundCreatedCache s))"
  shows "RoundClothos r s = ([], s) \<and> RoundEvents r s = (0, s)
     \<and> GetRoundCreated r s = (Inl (NewStoreErr ''RoundCreatedCache'' KeyNotFound (KeyInt r)), s)"
proof -
  from assms have "map_of (lru_items (roundCreatedCache s)) r = None"
    by (simp add: map_of_eq_None_iff)
  then have "GetRoundCreated r s = (Inl (NewStoreErr ''RoundCreatedCache'' KeyNotFound (KeyInt r)), s)"
    by (simp add: GetRoundCreated_def lru_Get_def)
  then show ?thesis by (simp add: RoundClothos_def RoundEvents_def)
qed

theorem RoundClothos_RoundEvents_not_found_witness:
  "RoundClothos 4 store1 = ([], store1) \<and> RoundEvents 4 store1 = (0, store1)"
proof -
  have "(4 :: int64) \<notin> fst ` set (lru_items (roundCreatedCache store1))"
    by (simp add: store1_def)
  from RoundClothos_RoundEvents_not_found [OF this] show ?thesis by simp
qed

subsection \<open>The event cache and SetEvent\<close>

lemma lru_Add_hit:
  "0 < lru_size c \<Longrightarrow> map_of (lru_items (lru_Add k v c)) k = Some v"
  by (cases "lru_items c") (auto simp: lru_Add_def Let_def split: option.splits)

lemma lru_size_Add [simp]: "lru_size (lru_Add k v c) = lru_size c"
  by (simp add: lru_Add_def Let_def split: option.splits)

lemma lru_size_Get [simp]: "lru_size (snd (lru_Get k c)) = lru_size c"
  by (simp add: lru_Get_def split: option.splits)

lemma lru_Get_miss: "map_of (lru_items c) k = None \<Longrightarrow> lru_Get k c = (None, c)"
  by (simp add: lru_Get_def)

lemma lru_Get_hit:
  "map_of (lru_items c) k = Some v \<Longrightarrow>
   lru_Get k c = (Some v, c\<lparr>lru_items := (k, v) # filter (\<lambda>kv. fst kv \<noteq> k) (lru_items c)\<rparr>)"
  by (simp add: lru_Get_def)

text \<open>The two paths of \<open>SetEvent\<close>: the hash is cached, or it is not.\<close>

lemma SetEvent_cached:
  assumes "map_of (lru_items (eventCache s)) (Event_Hash e) = Some ev"
  shows "SetEvent e s =
     (None, s\<lparr>eventCache := lru_Add (Event_Hash e) e (snd (lru_Get (Event_Hash e) (eventCache s)))\<rparr>)"
  using assms by (simp add: SetEvent_def GetEventBlock_def lru_Get_hit Let_def)

lemma SetEvent_new:
  assumes "map_of (lru_items (eventCache s)) (Event_Hash e) = None"
  shows "SetEvent e s =
     (case PEC_Set (Event_GetCreator e) (Event_Hash e) (Event_Index e) (participantEventsCache s) of
        (Some err, pec) \<Rightarrow> (Some err, s\<lparr>participantEventsCache := pec\<rparr>)
      | (None, pec) \<Rightarrow> (None, s\<lparr>participantEventsCache := pec,
                                 eventCache := lru_Add (Event_Hash e) e (eventCache s)\<rparr>))"
  using assms
  by (simp add: SetEvent_def GetEventBlock_def lru_Get_miss Let_def addParticpantEvent_def
      split: prod.splits option.splits)

lemma SetEvent_ok_cache:
  assumes pos: "0 < lru_size (eventCache s)" and ok: "SetEvent e s = (None, s1)"
  shows "map_of (lru_items (eventCache s1)) (Event_Hash e) = Some e
     \<and> lru_size (eventCache s1) = lru_size (eventCache s)"
proof (cases "map_of (lru_items (eventCache s)) (Event_Hash e)")
  case None
  from ok show ?thesis
    unfolding SetEvent_new [OF None] using pos
    by (auto simp: lru_Add_hit split: prod.splits option.splits)
next
  case (Some ev)
  from ok show ?thesis
    unfolding SetEvent_cached [OF Some] using pos
    by (auto simp: lru_Add_hit)
qed

lemma PEC_first_event:
  assumes w: "pec_windows pec p = pw_empty" and ok: "PEC_Set p h i pec = (None, pec')"
  shows "i = 0 \<and> PEC_Get p (- 1) pec' = Inr [h]"
  using assms
  by (auto simp: PEC_Set_def PEC_Get_def Let_def pw_empty_def pw_low_def split: if_splits)

text \<open>
  C5. After a successful \<open>SetEvent e\<close> on a store whose event cache has a positive
  capacity, a second \<open>SetEvent e\<close> returns no error and changes nothing but the event
  cache, which holds \<open>e\<close> under its hash: the participant-events index is the same, so
  \<open>ParticipantEvents\<close> of the creator answers what it answered after the first call. When
  \<open>e\<close> is the first event of its creator (the hash was not cached and the creator had no
  events), \<open>ParticipantEvents creator (- 1)\<close> after inserting \<open>e\<close> twice is the one hash of
  \<open>e\<close>: its length is 1.
\<close>

theorem SetEvent_idempotent:
  assumes pos: "0 < lru_size (eventCache s)" and first: "SetEvent e s = (None, s1)"
  shows "\<exists>s2. SetEvent e s1 = (None, s2)
     \<and> participantEventsCache s2 = participantEventsCache s1
     \<and> ParticipantEvents (Event_GetCreator e) (- 1) s2 = ParticipantEvents (Event_GetCreator e) (- 1) s1
     \<and> s2 = s1\<lparr>eventCache := eventCache s2\<rparr>
     \<and> fst (GetEventBlock (Event_Hash e) s2) = Inr e
     \<and> (map_of (lru_items (eventCache s)) (Event_Hash e) = None
          \<and> pec_windows (participantEventsCache s) (Event_GetCreator e) = pw_empty \<longrightarrow>
        ParticipantEvents (Event_GetCreator e) (- 1) s2 = Inr [Event_Hash e])"
proof -
  let ?s2 = "s1\<lparr>eventCache := lru_Add (Event_Hash e) e (snd (lru_Get (Event_Hash e) (eventCache s1)))\<rparr>"
  from SetEvent_ok_cache [OF pos first]
  have c1: "map_of (lru_items (eventCache s1)) (Event_Hash e) = Some e"
    and z1: "lru_size (eventCache s1) = lru_size (eventCache s)" by auto
  from SetEvent_cached [OF c1] have second: "SetEvent e s1 = (None, ?s2)" .
  have pos1: "0 < lru_size (eventCache s1)" using pos z1 by simp
  from SetEvent_ok_cache [OF pos1 second]
  have c2: "map_of (lru_items (eventCache ?s2)) (Event_Hash e) = Some e" by simp
  then have g: "fst (GetEventBlock (Event_Hash e) ?s2) = Inr e"
    by (simp add: GetEventBlock_def lru_Get_hit)
  have one: "ParticipantEvents (Event_GetCreator e) (- 1) s1 = Inr [Event_Hash e]"
    if n: "map_of (lru_items (eventCache s)) (Event_Hash e) = None"
      and w: "pec_windows (participantEventsCache s) (Event_GetCreator e) = pw_empty"
  proof -
    from first obtain pec where
      p: "PEC_Set (Event_GetCreator e) (Event_Hash e) (Event_Index e) (participantEventsCache s) = (None, pec)"
      and s1: "participantEventsCache s1 = pec"
      unfolding SetEvent_new [OF n] by (auto split: prod.splits option.splits)
    from PEC_first_event [OF w p] s1 show ?thesis
      by (simp add: ParticipantEvents_def)
  qed
  have "participantEventsCache ?s2 = participantEventsCache s1" by simp
  moreover have "ParticipantEvents (Event_GetCreator e) (- 1) ?s2
                   = ParticipantEvents (Event_GetCreator e) (- 1) s1"
    by (simp add: ParticipantEvents_def)
  moreover have "?s2 = s1\<lparr>eventCache := eventCache ?s2\<rparr>" by simp
  ultimately show ?thesis
    using second g one by (intro exI [of _ ?s2]) simp
qed

theorem SetEvent_idempotent_witness:
  "SetEvent event1 store1 = (None, store1e) \<and> SetEvent event1 store1e = (None, store1ee)
   \<and> participantEventsCache store1ee = participantEventsCache store1e
   \<and> ParticipantEvents ''P1'' (- 1) store1ee = Inr [[1]]"
proof -
  have n: "map_of (lru_items (eventCache store1)) (Event_Hash event1) = None"
    by (simp add: store1_def)
  have p: "PEC_Set (Event_GetCreator event1) (Event_Hash event1) (Event_Index event1)
             (participantEventsCache store1)
           = (None, (participantEventsCache store1)\<lparr>pec_windows :=
                (pec_windows (participantEventsCache store1))(''P1'' := \<lparr>pw_items = [[1]], pw_last = 0\<rparr>)\<rparr>)"
    by (simp add: PEC_Set_def store1_def event1_def pw_empty_def Let_def)
  have first: "SetEvent event1 store1 = (None, store1e)"
    unfolding store1e_def SetEvent_new [OF n] p by simp
  have pos: "0 < lru_size (eventCache store1)" by (simp add: store1_def)
  have w: "pec_windows (participantEventsCache store1) (Event_GetCreator event1) = pw_empty"
    by (simp add: store1_def)
  have c: "Event_GetCreator event1 = ''P1''" "Event_Hash event1 = [1]" by (simp_all add: event1_def)
  from SetEvent_idempotent [OF pos first] n w first c show ?thesis
    by (auto simp: store1ee_def)
qed

subsection \<open>Falling back to the root\<close>

lemma knownStep_other:
  "k \<noteq> ID (snd x) \<Longrightarrow> knownStep roots x known k = known k"
  by (cases x) (simp add: knownStep_def split: option.splits)

lemma fold_knownStep_other:
  "k \<notin> (\<lambda>x. ID (snd x)) ` set xs \<Longrightarrow> fold (knownStep roots) xs known k = known k"
  by (induction xs arbitrary: known) (auto simp: knownStep_other)

lemma knownStep_hit:
  "known (ID pid) = Some (- 1) \<Longrightarrow> map_of roots p = Some root \<Longrightarrow>
   knownStep roots (p, pid) known (ID pid) = Some (RootEvent_Index (SelfParent root))"
  by (simp add: knownStep_def index0_def)

lemma fold_knownStep_hit:
  "distinct (map (\<lambda>x. ID (snd x)) xs) \<Longrightarrow> (p, pid) \<in> set xs \<Longrightarrow>
   known (ID pid) = Some (- 1) \<Longrightarrow> map_of roots p = Some root \<Longrightarrow>
   fold (knownStep roots) xs known (ID pid) = Some (RootEvent_Index (SelfParent root))"
proof (induction xs arbitrary: known)
  case Nil
  then show ?case by simp
next
  case (Cons x xs)
  show ?case
  proof (cases "x = (p, pid)")
    case True
    from Cons.prems(1) True have "ID pid \<notin> (\<lambda>x. ID (snd x)) ` set xs" by auto
    from fold_knownStep_other [OF this]
    have "fold (knownStep roots) xs (knownStep roots (p, pid) known) (ID pid)
            = knownStep roots (p, pid) known (ID pid)" .
    with knownStep_hit [of known pid roots p root] Cons.prems(3) Cons.prems(4) True
    show ?thesis by simp
  next
    case False
    with Cons.prems have m: "(p, pid) \<in> set xs" and d: "distinct (map (\<lambda>x. ID (snd x)) xs)"
      by auto
    from m have "ID (snd (p, pid)) \<in> (\<lambda>x. ID (snd x)) ` set xs" by (rule imageI)
    then have i: "ID pid \<in> (\<lambda>x. ID (snd x)) ` set xs" by simp
    from Cons.prems(1) have "ID (snd x) \<notin> (\<lambda>x. ID (snd x)) ` set xs" by simp
    with i have "ID pid \<noteq> ID (snd x)" by metis
    from knownStep_other [OF this] Cons.prems(3)
    have "knownStep roots x known (ID pid) = Some (- 1)" by simp
    with Cons.IH [of "knownStep roots x known"] d m Cons.prems(4) show ?thesis by simp
  qed
qed

lemma PEC_Known_entry:
  assumes d: "distinct (map (\<lambda>x. ID (snd x)) (ByPubKey (pec_participants pec)))"
    and m: "(p, pid) \<in> set (ByPubKey (pec_participants pec))"
  shows "PEC_Known pec (ID pid) = Some (pw_last (pec_windows pec p))"
proof -
  let ?xs = "map (\<lambda>(pk, peer). (ID peer, pw_last (pec_windows pec pk)))
               (ByPubKey (pec_participants pec))"
  have e: "map fst ?xs = map (\<lambda>x. ID (snd x)) (ByPubKey (pec_participants pec))"
    by (induction "ByPubKey (pec_participants pec)") auto
  have "distinct (map fst ?xs)" unfolding e by (rule d)
  moreover from m have "(ID pid, pw_last (pec_windows pec p)) \<in> set ?xs" by force
  ultimately show ?thesis
    unfolding PEC_Known_def by (rule map_of_is_SomeI)
qed

lemma fold_knownStep_noroot:
  "distinct (map (\<lambda>x. ID (snd x)) xs) \<Longrightarrow> (p, pid) \<in> set xs \<Longrightarrow> map_of roots p = None \<Longrightarrow>
   fold (knownStep roots) xs known (ID pid) = known (ID pid)"
proof (induction xs arbitrary: known)
  case Nil
  then show ?case by simp
next
  case (Cons x xs)
  show ?case
  proof (cases "x = (p, pid)")
    case True
    from Cons.prems(1) True have "ID pid \<notin> (\<lambda>x. ID (snd x)) ` set xs" by auto
    from fold_knownStep_other [OF this]
    have "fold (knownStep roots) xs (knownStep roots (p, pid) known) (ID pid)
            = knownStep roots (p, pid) known (ID pid)" .
    moreover have "knownStep roots (p, pid) known = known"
      using Cons.prems(3) by (simp add: knownStep_def)
    ultimately show ?thesis using True by simp
  next
    case False
    with Cons.prems have m: "(p, pid) \<in> set xs" and d: "distinct (map (\<lambda>x. ID (snd x)) xs)"
      by auto
    from m have "ID (snd (p, pid)) \<in> (\<lambda>x. ID (snd x)) ` set xs" by (rule imageI)
    then have i: "ID pid \<in> (\<lambda>x. ID (snd x)) ` set xs" by simp
    from Cons.prems(1) have "ID (snd x) \<notin> (\<lambda>x. ID (snd x)) ` set xs" by simp
    with i have "ID pid \<noteq> ID (snd x)" by metis
    from knownStep_other [OF this]
    have "knownStep roots x known (ID pid) = known (ID pid)" .
    with Cons.IH [of "knownStep roots x known"] d m Cons.prems(3) show ?thesis by simp
  qed
qed

text \<open>
  C6. The claim reads: for every participant \<open>p\<close> registered in the store with no events
  ever inserted, \<open>LastEventFrom p\<close> returns the self-parent hash of the root of \<open>p\<close> with
  \<open>isRoot = True\<close> and no error, and \<open>KnownEvents\<close> maps the id of \<open>p\<close> to the self-parent
  index of the root instead of the sentinel \<open>- 1\<close>; for every participant not registered,
  \<open>LastEventFrom p\<close> returns the no-root error. \<open>LastEventFrom\<close> and \<open>KnownEvents\<close>
  consult \<open>rootsByParticipant\<close> only, which \<open>Reset\<close> replaces by the map it is given: a
  participant of the peer set can be left without a root, and a participant without a
  root can have events. What holds, for a participant \<open>p\<close> for whom the
  participant-events index holds no event (its window is the empty one): if \<open>p\<close> has a
  root, \<open>LastEventFrom p\<close> returns the self-parent hash of the root with \<open>isRoot = True\<close>
  and no error, and if \<open>p\<close> has no root it returns the no-root error; if \<open>p\<close> is moreover
  in the peer set with the peer \<open>pid\<close> (ids being distinct in the peer set, which the
  index shares with the store), \<open>KnownEvents\<close> maps the id of \<open>pid\<close> to the self-parent
  index of the root when \<open>p\<close> has one, and to the sentinel \<open>- 1\<close> when it has none. And a
  participant for whom an event is held gets the newest of them, with \<open>isRoot = False\<close>,
  whether it has a root or not.
\<close>

theorem LastEventFrom_KnownEvents_root_fallback:
  "(pec_windows (participantEventsCache s) p = pw_empty \<and> map_of (rootsByParticipant s) p = Some root \<longrightarrow>
      LastEventFrom p s = Inr (EventHash_Set (RootEvent_Hash (SelfParent root)), True))
   \<and> (pec_windows (participantEventsCache s) p = pw_empty \<and> map_of (rootsByParticipant s) p = Some root
       \<and> (p, pid) \<in> set (ByPubKey (participants s))
       \<and> distinct (map (\<lambda>x. ID (snd x)) (ByPubKey (participants s)))
       \<and> pec_participants (participantEventsCache s) = participants s \<longrightarrow>
      PEC_Known (participantEventsCache s) (ID pid) = Some (- 1)
      \<and> KnownEvents s (ID pid) = Some (RootEvent_Index (SelfParent root)))
   \<and> (pec_windows (participantEventsCache s) p = pw_empty \<and> map_of (rootsByParticipant s) p = None \<longrightarrow>
      LastEventFrom p s = Inl (NewStoreErr ''InmemStore.Roots'' NoRoot (KeyStr p)))
   \<and> (pec_windows (participantEventsCache s) p = pw_empty \<and> map_of (rootsByParticipant s) p = None
       \<and> (p, pid) \<in> set (ByPubKey (participants s))
       \<and> distinct (map (\<lambda>x. ID (snd x)) (ByPubKey (participants s)))
       \<and> pec_participants (participantEventsCache s) = participants s \<longrightarrow>
      KnownEvents s (ID pid) = Some (- 1))
   \<and> (pw_items (pec_windows (participantEventsCache s) p) \<noteq> [] \<longrightarrow>
      LastEventFrom p s = Inr (last (pw_items (pec_windows (participantEventsCache s) p)), False))"
proof -
  have sentinel: "PEC_Known (participantEventsCache s) (ID pid) = Some (- 1)"
    if w: "pec_windows (participantEventsCache s) p = pw_empty"
      and m: "(p, pid) \<in> set (ByPubKey (participants s))"
      and d: "distinct (map (\<lambda>x. ID (snd x)) (ByPubKey (participants s)))"
      and a: "pec_participants (participantEventsCache s) = participants s"
    using PEC_Known_entry [of "participantEventsCache s" p pid] d m a w
    by (simp add: pw_empty_def)
  have known: "KnownEvents s (ID pid) = Some (RootEvent_Index (SelfParent root))"
    if k: "PEC_Known (participantEventsCache s) (ID pid) = Some (- 1)"
      and r: "map_of (rootsByParticipant s) p = Some root"
      and m: "(p, pid) \<in> set (ByPubKey (participants s))"
      and d: "distinct (map (\<lambda>x. ID (snd x)) (ByPubKey (participants s)))"
    using fold_knownStep_hit [of "ByPubKey (participants s)" p pid
        "PEC_Known (participantEventsCache s)" "rootsByParticipant s" root] d m k r
    by (simp add: KnownEvents_def)
  have kept: "KnownEvents s (ID pid) = PEC_Known (participantEventsCache s) (ID pid)"
    if r: "map_of (rootsByParticipant s) p = None"
      and m: "(p, pid) \<in> set (ByPubKey (participants s))"
      and d: "distinct (map (\<lambda>x. ID (snd x)) (ByPubKey (participants s)))"
    using fold_knownStep_noroot [of "ByPubKey (participants s)" p pid "rootsByParticipant s"
        "PEC_Known (participantEventsCache s)"] d m r
    by (simp add: KnownEvents_def)
  have empty: "pec_windows (participantEventsCache s) p = pw_empty \<Longrightarrow>
      PEC_GetLast p (participantEventsCache s) = Inl (NewStoreErr ''ParticipantEvents'' Empty (KeyStr []))"
    by (simp add: PEC_GetLast_def pw_empty_def)
  have held: "pw_items (pec_windows (participantEventsCache s) p) \<noteq> [] \<Longrightarrow>
      LastEventFrom p s = Inr (last (pw_items (pec_windows (participantEventsCache s) p)), False)"
    by (cases "pw_items (pec_windows (participantEventsCache s) p)")
       (simp_all add: LastEventFrom_def PEC_GetLast_def)
  show ?thesis
    using sentinel known kept empty held by (auto simp: LastEventFrom_def)
qed

theorem LastEventFrom_KnownEvents_root_fallback_witness:
  "(case Reset [(''P1'', root1)] store1 of
      Return r \<Rightarrow> LastEventFrom ''P1'' (snd r) = Inr ([7], True) \<and> KnownEvents (snd r) 1 = Some 4
    | Exit c \<Rightarrow> False)
   \<and> (case Reset [] store1 of
      Return r \<Rightarrow> LastEventFrom ''P1'' (snd r) = Inl (NewStoreErr ''InmemStore.Roots'' NoRoot (KeyStr ''P1''))
         \<and> KnownEvents (snd r) 1 = Some (- 1)
    | Exit c \<Rightarrow> False)
   \<and> LastEventFrom ''P1'' store1 = Inr ([0, 1], True)
   \<and> KnownEvents store1 1 = Some (- 1)
   \<and> LastEventFrom ''P2'' store1 = Inl (NewStoreErr ''InmemStore.Roots'' NoRoot (KeyStr ''P2''))
   \<and> LastEventFrom ''P1'' store1e = Inr ([1], False)"
proof -
  obtain s' where r: "Reset [(''P1'', root1)] store1 = Return (None, s')"
    using Reset_returns [of store1] by auto
  then have f: "pec_windows (participantEventsCache s') ''P1'' = pw_empty"
      "map_of (rootsByParticipant s') ''P1'' = Some root1"
      "(''P1'', peer1) \<in> set (ByPubKey (participants s'))"
      "distinct (map (\<lambda>x. ID (snd x)) (ByPubKey (participants s')))"
      "pec_participants (participantEventsCache s') = participants s'"
    by (simp_all add: Reset_Return_iff store1_def peers1_def)
  obtain s0 where r0: "Reset [] store1 = Return (None, s0)"
    using Reset_returns [of store1] by auto
  then have f0: "pec_windows (participantEventsCache s0) ''P1'' = pw_empty"
      "map_of (rootsByParticipant s0) ''P1'' = None"
      "(''P1'', peer1) \<in> set (ByPubKey (participants s0))"
      "distinct (map (\<lambda>x. ID (snd x)) (ByPubKey (participants s0)))"
      "pec_participants (participantEventsCache s0) = participants s0"
    by (simp_all add: Reset_Return_iff store1_def peers1_def)
  have g: "pec_windows (participantEventsCache store1) ''P1'' = pw_empty"
      "map_of (rootsByParticipant store1) ''P1''
         = Some \<lparr>SelfParent = \<lparr>RootEvent_Hash = [0, 1], RootEvent_Index = - 1\<rparr>\<rparr>"
      "(''P1'', peer1) \<in> set (ByPubKey (participants store1))"
      "distinct (map (\<lambda>x. ID (snd x)) (ByPubKey (participants store1)))"
      "pec_participants (participantEventsCache store1) = participants store1"
      "pec_windows (participantEventsCache store1) ''P2'' = pw_empty"
      "map_of (rootsByParticipant store1) ''P2'' = None"
    by (simp_all add: store1_def peers1_def)
  have e: "pw_items (pec_windows (participantEventsCache store1e) ''P1'') = [[1]]"
    by (simp add: store1e_def SetEvent_def GetEventBlock_def lru_Get_def addParticpantEvent_def
        PEC_Set_def store1_def event1_def pw_empty_def Let_def split_beta)
  have v: "EventHash_Set (RootEvent_Hash (SelfParent root1)) = [7]"
      "RootEvent_Index (SelfParent root1) = 4" "ID peer1 = 1"
    by (simp_all add: EventHash_Set_def root1_def peer1_def)
  from LastEventFrom_KnownEvents_root_fallback [of s' "''P1''" root1 peer1]
    LastEventFrom_KnownEvents_root_fallback [of s0 "''P1''" root1 peer1]
    LastEventFrom_KnownEvents_root_fallback [of store1 "''P1''"
      "\<lparr>SelfParent = \<lparr>RootEvent_Hash = [0, 1], RootEvent_Index = - 1\<rparr>\<rparr>" peer1]
    LastEventFrom_KnownEvents_root_fallback [of store1 "''P2''" root1 peer1]
    LastEventFrom_KnownEvents_root_fallback [of store1e "''P1''" root1 peer1]
    r r0 f f0 g e v
  show ?thesis by (simp add: EventHash_Set_def)
qed

text \<open>
  The fresh store of the participant \<open>P1\<close>. After \<open>Reset\<close> with the empty root map \<open>P1\<close>
  is still in the peer set and has no events, and \<open>LastEventFrom\<close> returns the no-root
  error, not a root hash. After \<open>SetEvent event1\<close> on top of that, \<open>P1\<close> has no root, and
  \<open>LastEventFrom\<close> returns the hash of \<open>event1\<close>, not the no-root error.
\<close>

theorem LastEventFrom_after_Reset_counterexample:
  "map_proc participants (run [OpReset []] store1) = Return peers1
   \<and> map_proc (LastEventFrom ''P1'') (run [OpReset []] store1)
       = Return (Inl (NewStoreErr ''InmemStore.Roots'' NoRoot (KeyStr ''P1'')))
   \<and> map_proc (GetRoot ''P1'') (run [OpReset [], OpSetEvent event1] store1)
       = Return (Inl (NewStoreErr ''RootCache'' KeyNotFound (KeyStr ''P1'')))
   \<and> map_proc (LastEventFrom ''P1'') (run [OpReset [], OpSetEvent event1] store1)
       = Return (Inr ([1], False))"
  by (simp add: Reset_def lru_New_def RootsBySelfParent_def PEC_Reset_def Let_def
      store1_def event1_def LastEventFrom_def PEC_GetLast_def GetRoot_def pw_empty_def
      SetEvent_def GetEventBlock_def lru_Get_def lru_Add_def addParticpantEvent_def PEC_Set_def
      split_beta)

lemma PEC_GetItem_miss:
  "\<not> PEC_holds p i pec \<Longrightarrow>
   \<exists>t. PEC_GetItem p i pec = Inl (NewStoreErr ''ParticipantEvents'' t (KeyInt i)) \<and> t \<noteq> NoRoot"
  by (auto simp: PEC_holds_def PEC_GetItem_def Let_def)

lemma map_of_base_roots:
  "distinct (map fst xs) \<Longrightarrow> (p, pid) \<in> set xs \<Longrightarrow>
   map_of (map (\<lambda>(pk, pid). (pk, NewBaseRoot bh (ID pid))) xs) p = Some (NewBaseRoot bh (ID pid))"
  by (induction xs) (auto simp: rev_image_eqI)

text \<open>
  C7. Let the index \<open>i\<close> lie outside the window that the participant-events index holds
  for \<open>p\<close>. If \<open>p\<close> has a root, \<open>ParticipantEvent p i\<close> returns the self-parent hash of the
  root, with no error, when \<open>i\<close> is the self-parent index of the root, and an error (not
  the no-root one) when it is not. If \<open>p\<close> has no root, it returns the no-root error. On
  a fresh store, for a participant \<open>p\<close> of the peer set, \<open>ParticipantEvent p (- 1)\<close> is
  the self-parent hash of the base root of \<open>p\<close>.
\<close>

theorem ParticipantEvent_root_fallback:
  "(\<not> PEC_holds p i (participantEventsCache s) \<and> map_of (rootsByParticipant s) p = Some root
      \<and> RootEvent_Index (SelfParent root) = i \<longrightarrow>
        ParticipantEvent p i s = Inr (EventHash_Set (RootEvent_Hash (SelfParent root))))
   \<and> (\<not> PEC_holds p i (participantEventsCache s) \<and> map_of (rootsByParticipant s) p = Some root
      \<and> RootEvent_Index (SelfParent root) \<noteq> i \<longrightarrow>
        (\<exists>e. ParticipantEvent p i s = Inl e \<and> \<not> Is (Some e) NoRoot))
   \<and> (\<not> PEC_holds p i (participantEventsCache s) \<and> map_of (rootsByParticipant s) p = None \<longrightarrow>
        ParticipantEvent p i s = Inl (NewStoreErr ''InmemStore.Roots'' NoRoot (KeyStr p)))
   \<and> (NewInmemStore bh ps n = Return s \<and> distinct (map fst (ByPubKey ps)) \<and> (p, pid) \<in> set (ByPubKey ps) \<longrightarrow>
        ParticipantEvent p (- 1) s = Inr (EventHash_Set (bh (ID pid))))"
proof -
  have miss: "\<not> PEC_holds p i (participantEventsCache s) \<Longrightarrow>
     \<exists>t. PEC_GetItem p i (participantEventsCache s) = Inl (NewStoreErr ''ParticipantEvents'' t (KeyInt i))
        \<and> t \<noteq> NoRoot"
    by (rule PEC_GetItem_miss)
  have fresh: "ParticipantEvent p (- 1) s = Inr (EventHash_Set (bh (ID pid)))"
    if n: "NewInmemStore bh ps n = Return s" and d: "distinct (map fst (ByPubKey ps))"
      and m: "(p, pid) \<in> set (ByPubKey ps)"
  proof -
    from NewInmemStore_Return [OF n]
    have pec: "participantEventsCache s = NewParticipantEventsCache n ps"
      and roots: "rootsByParticipant s = map (\<lambda>(pk, pid). (pk, NewBaseRoot bh (ID pid))) (ByPubKey ps)"
      by auto
    have "PEC_GetItem p (- 1) (participantEventsCache s)
            = Inl (NewStoreErr ''ParticipantEvents'' TooLow (KeyInt (- 1)))"
      by (simp add: pec PEC_GetItem_def NewParticipantEventsCache_def pw_empty_def pw_low_def)
    moreover have "map_of (rootsByParticipant s) p = Some (NewBaseRoot bh (ID pid))"
      unfolding roots by (rule map_of_base_roots [OF d m])
    ultimately show ?thesis
      by (simp add: ParticipantEvent_def NewBaseRoot_def)
  qed
  show ?thesis
    using miss fresh by (auto simp: ParticipantEvent_def)
qed

theorem ParticipantEvent_root_fallback_witness:
  "ParticipantEvent ''P1'' (- 1) store1 = Inr [0, 1]
   \<and> (\<exists>e. ParticipantEvent ''P1'' 0 store1 = Inl e \<and> \<not> Is (Some e) NoRoot)
   \<and> ParticipantEvent ''P2'' 0 store1 = Inl (NewStoreErr ''InmemStore.Roots'' NoRoot (KeyStr ''P2''))"
proof -
  let ?root = "\<lparr>SelfParent = \<lparr>RootEvent_Hash = [0, 1], RootEvent_Index = - 1\<rparr>\<rparr>"
  have f: "NewInmemStore baseHash1 peers1 2 = Return store1" by (rule store1_fresh)
  have d: "distinct (map fst (ByPubKey peers1)) \<and> (''P1'', peer1) \<in> set (ByPubKey peers1)"
    by (simp add: peers1_def)
  have h: "\<not> PEC_holds ''P1'' (- 1) (participantEventsCache store1)"
      "\<not> PEC_holds ''P1'' 0 (participantEventsCache store1)"
      "\<not> PEC_holds ''P2'' 0 (participantEventsCache store1)"
    by (simp_all add: PEC_holds_def store1_def pw_empty_def pw_low_def)
  have r: "map_of (rootsByParticipant store1) ''P1'' = Some ?root"
      "map_of (rootsByParticipant store1) ''P2'' = None"
    by (simp_all add: store1_def)
  have v: "EventHash_Set (RootEvent_Hash (SelfParent ?root)) = [0, 1]"
      "RootEvent_Index (SelfParent ?root) = - 1"
    by (simp_all add: EventHash_Set_def)
  from ParticipantEvent_root_fallback [of "''P1''" "- 1" store1 ?root baseHash1 peers1 2 peer1]
    ParticipantEvent_root_fallback [of "''P1''" 0 store1 ?root baseHash1 peers1 2 peer1]
    ParticipantEvent_root_fallback [of "''P2''" 0 store1 ?root baseHash1 peers1 2 peer1]
    f d h r v
  show ?thesis by simp
qed

subsection \<open>What every reachable store satisfies\<close>

lemma SetEvent_fields:
  "participants (snd (SetEvent e s)) = participants s
   \<and> lru_size (eventCache (snd (SetEvent e s))) = lru_size (eventCache s)
   \<and> pec_participants (participantEventsCache (snd (SetEvent e s)))
        = pec_participants (participantEventsCache s)
   \<and> (Event_GetCreator e \<noteq> p \<longrightarrow>
        pec_windows (participantEventsCache (snd (SetEvent e s))) p
          = pec_windows (participantEventsCache s) p)"
proof (cases "map_of (lru_items (eventCache s)) (Event_Hash e)")
  case None
  show ?thesis
    unfolding SetEvent_new [OF None]
    by (cases "PEC_Set (Event_GetCreator e) (Event_Hash e) (Event_Index e) (participantEventsCache s)")
       (auto simp: PEC_Set_def Let_def split: option.splits if_splits)
next
  case (Some ev)
  show ?thesis
    unfolding SetEvent_cached [OF Some] by simp
qed

text \<open>Every operation that returns keeps the invariant of the store.\<close>

lemma apply_op_inv:
  assumes "apply_op x s = Return s'" and "store_inv s"
  shows "store_inv s'"
proof (cases x)
  case (OpSetEvent e)
  with assms SetEvent_fields [of e s] show ?thesis by (auto simp: store_inv_def)
next
  case (OpReset roots)
  with assms obtain err where "Reset roots s = Return (err, s')"
    by (auto split: proc.splits)
  with assms(2) show ?thesis by (auto simp: Reset_Return_iff store_inv_def)
qed (use assms in \<open>auto simp: store_inv_def RootsBySelfParent_def GetEventBlock_def
      AddConsensusEvent_def GetRoundCreated_def SetRoundCreated_def GetRoundReceived_def
      SetRoundReceived_def RoundClothos_def RoundEvents_def GetBlock_def SetBlock_def
      GetFrame_def SetFrame_def Let_def lru_Get_def
      split: option.splits prod.splits sum.splits if_splits\<close>)

text \<open>A participant for whom no event is set keeps the empty window.\<close>

lemma apply_op_window:
  assumes "apply_op x s = Return s'" and "\<not> setsEventOf p x"
    and "pec_windows (participantEventsCache s) p = pw_empty"
  shows "pec_windows (participantEventsCache s') p = pw_empty"
proof (cases x)
  case (OpSetEvent e)
  with assms SetEvent_fields [of e s p] show ?thesis by auto
next
  case (OpReset roots)
  with assms obtain err where "Reset roots s = Return (err, s')"
    by (auto split: proc.splits)
  then show ?thesis by (auto simp: Reset_Return_iff)
qed (use assms in \<open>auto simp: RootsBySelfParent_def GetEventBlock_def
      AddConsensusEvent_def GetRoundCreated_def SetRoundCreated_def GetRoundReceived_def
      SetRoundReceived_def RoundClothos_def RoundEvents_def GetBlock_def SetBlock_def
      GetFrame_def SetFrame_def Let_def lru_Get_def
      split: option.splits prod.splits sum.splits if_splits\<close>)

lemma run_inv:
  "run ops s = Return s' \<Longrightarrow> store_inv s \<Longrightarrow> store_inv s'"
proof (induction ops arbitrary: s)
  case Nil
  then show ?case by simp
next
  case (Cons x ops)
  from Cons.prems(1) obtain s1 where a: "apply_op x s = Return s1" and r: "run ops s1 = Return s'"
    by (auto split: proc.splits)
  from apply_op_inv [OF a Cons.prems(2)] Cons.IH [OF r] show ?case by simp
qed

lemma run_window:
  "run ops s = Return s' \<Longrightarrow> \<forall>x \<in> set ops. \<not> setsEventOf p x \<Longrightarrow>
   pec_windows (participantEventsCache s) p = pw_empty \<Longrightarrow>
   pec_windows (participantEventsCache s') p = pw_empty"
proof (induction ops arbitrary: s)
  case Nil
  then show ?case by simp
next
  case (Cons x ops)
  from Cons.prems(1) obtain s1 where a: "apply_op x s = Return s1" and r: "run ops s1 = Return s'"
    by (auto split: proc.splits)
  from Cons.prems(2) have nx: "\<not> setsEventOf p x" and rest: "\<forall>y \<in> set ops. \<not> setsEventOf p y"
    by auto
  from apply_op_window [OF a nx Cons.prems(3)] Cons.IH [OF r rest] show ?case by simp
qed

text \<open>
  A store that \<open>NewInmemStore\<close> returns satisfies the invariant and holds no event for
  any participant; so does every store reached from it by operations of which none
  sets an event of the participant.
\<close>

lemma fresh_inv:
  "NewInmemStore bh ps n = Return s \<Longrightarrow>
   store_inv s \<and> (\<forall>p. pec_windows (participantEventsCache s) p = pw_empty)"
  by (drule NewInmemStore_Return) (auto simp: store_inv_def NewParticipantEventsCache_def)

lemma reachable_no_events:
  assumes "NewInmemStore bh ps n = Return s0" and "run ops s0 = Return s"
    and "\<forall>x \<in> set ops. \<not> setsEventOf p x"
  shows "store_inv s \<and> pec_windows (participantEventsCache s) p = pw_empty"
  using fresh_inv [OF assms(1)] run_inv [OF assms(2)] run_window [OF assms(2) assms(3)]
  by simp

end
